theory Spec2Isabelle
  imports Complex_Main "HOL-Library.Word" "HOL-Library.Monad_Syntax"
begin

section \<open>Numbers\<close>

text \<open>
  The functions of \<^verbatim>\<open>services/audioUtils.ts\<close> compute on JavaScript numbers. A finite
  number is modelled by the real it denotes: rounding to double or single precision,
  overflow and the sign of zero are not modelled (a zero divisor counts as \<open>+0\<close>). The
  non-finite values are values of their own, with the arithmetic and the comparisons that
  ECMAScript gives them.
\<close>

datatype jsnum = Num real | PInf | NInf | NaN

fun js_uminus :: "jsnum \<Rightarrow> jsnum" where
  "js_uminus (Num x) = Num (- x)"
| "js_uminus PInf = NInf"
| "js_uminus NInf = PInf"
| "js_uminus NaN = NaN"

fun js_plus :: "jsnum \<Rightarrow> jsnum \<Rightarrow> jsnum" where
  "js_plus (Num x) (Num y) = Num (x + y)"
| "js_plus NaN _ = NaN"
| "js_plus _ NaN = NaN"
| "js_plus PInf NInf = NaN"
| "js_plus NInf PInf = NaN"
| "js_plus PInf _ = PInf"
| "js_plus _ PInf = PInf"
| "js_plus NInf _ = NInf"
| "js_plus _ NInf = NInf"

definition js_minus :: "jsnum \<Rightarrow> jsnum \<Rightarrow> jsnum" where
  "js_minus a b = js_plus a (js_uminus b)"

text \<open>The product or quotient of an infinity and a finite number, by the sign of the latter.\<close>

definition inf_times :: "jsnum \<Rightarrow> real \<Rightarrow> jsnum" where
  "inf_times i x = (if x = 0 then NaN else if 0 < x then i else js_uminus i)"

fun js_times :: "jsnum \<Rightarrow> jsnum \<Rightarrow> jsnum" where
  "js_times (Num x) (Num y) = Num (x * y)"
| "js_times NaN _ = NaN"
| "js_times _ NaN = NaN"
| "js_times (Num x) i = inf_times i x"
| "js_times i (Num y) = inf_times i y"
| "js_times PInf i = i"
| "js_times NInf i = js_uminus i"

fun js_divide :: "jsnum \<Rightarrow> jsnum \<Rightarrow> jsnum" where
  "js_divide (Num x) (Num y) =
     (if y = 0 then (if x = 0 then NaN else if 0 < x then PInf else NInf) else Num (x / y))"
| "js_divide NaN _ = NaN"
| "js_divide _ NaN = NaN"
| "js_divide (Num x) _ = Num 0"
| "js_divide i (Num y) = (if 0 \<le> y then i else js_uminus i)"
| "js_divide _ _ = NaN"

fun js_less :: "jsnum \<Rightarrow> jsnum \<Rightarrow> bool" where
  "js_less (Num x) (Num y) = (x < y)"
| "js_less NaN _ = False"
| "js_less _ NaN = False"
| "js_less NInf NInf = False"
| "js_less NInf _ = True"
| "js_less (Num x) PInf = True"
| "js_less _ _ = False"

definition js_greater :: "jsnum \<Rightarrow> jsnum \<Rightarrow> bool" where
  "js_greater a b = js_less b a"

definition js_greater_eq :: "jsnum \<Rightarrow> jsnum \<Rightarrow> bool" where
  "js_greater_eq a b = (a \<noteq> NaN \<and> b \<noteq> NaN \<and> \<not> js_less a b)"

definition js_max :: "jsnum \<Rightarrow> jsnum \<Rightarrow> jsnum" where
  "js_max a b = (if a = NaN \<or> b = NaN then NaN else if js_less a b then b else a)"

definition js_min :: "jsnum \<Rightarrow> jsnum \<Rightarrow> jsnum" where
  "js_min a b = (if a = NaN \<or> b = NaN then NaN else if js_less b a then b else a)"

fun js_abs :: "jsnum \<Rightarrow> jsnum" where
  "js_abs (Num x) = Num \<bar>x\<bar>"
| "js_abs PInf = PInf"
| "js_abs NInf = PInf"
| "js_abs NaN = NaN"

fun js_floor :: "jsnum \<Rightarrow> jsnum" where
  "js_floor (Num x) = Num (of_int \<lfloor>x\<rfloor>)"
| "js_floor i = i"

fun js_sin :: "jsnum \<Rightarrow> jsnum" where
  "js_sin (Num x) = Num (sin x)"
| "js_sin _ = NaN"

fun js_cos :: "jsnum \<Rightarrow> jsnum" where
  "js_cos (Num x) = Num (cos x)"
| "js_cos _ = NaN"

fun js_asin :: "jsnum \<Rightarrow> jsnum" where
  "js_asin (Num x) = (if - 1 \<le> x \<and> x \<le> 1 then Num (arcsin x) else NaN)"
| "js_asin _ = NaN"

fun js_sqrt :: "jsnum \<Rightarrow> jsnum" where
  "js_sqrt (Num x) = (if x < 0 then NaN else Num (sqrt x))"
| "js_sqrt PInf = PInf"
| "js_sqrt _ = NaN"

fun js_log10 :: "jsnum \<Rightarrow> jsnum" where
  "js_log10 (Num x) = (if x < 0 then NaN else if x = 0 then NInf else Num (log 10 x))"
| "js_log10 PInf = PInf"
| "js_log10 _ = NaN"


section \<open>Parameter advisor\<close>

text \<open>
  The cells of the image array are finite numbers. The advisor divides only by the number
  of cells, after its guard has made sure there is one, and takes the square root of a sum
  of squares, so it stays within the finite numbers and is modelled on the reals.
\<close>

subsection \<open>Number.prototype.toFixed followed by parseFloat / parseInt\<close>

text \<open>
  \<^verbatim>\<open>x.toFixed(f)\<close> prints the integer \<open>n\<close> for which \<open>n / 10^f\<close> is closest to \<open>x\<close>,
  the larger one on a tie, after taking the sign off a negative \<open>x\<close>; parsing the digits
  back gives \<open>n / 10^f\<close>.
\<close>

definition toFixed :: "real \<Rightarrow> nat \<Rightarrow> real" where
  "toFixed x f =
     (if x < 0 then - (of_int \<lfloor>(- x) * 10 ^ f + 1 / 2\<rfloor> / 10 ^ f)
      else of_int \<lfloor>x * 10 ^ f + 1 / 2\<rfloor> / 10 ^ f)"

text \<open>The three fields of \<^verbatim>\<open>Settings\<close> that the advisor sets.\<close>

record settings_patch =
  new_duration :: real
  new_minFreq :: real
  new_maxFreq :: real

text \<open>\<^verbatim>\<open>imageArray[0]?.length || 0\<close>: the length of the first row, 0 without a first row.\<close>

definition imageWidth :: "real list list \<Rightarrow> nat" where
  "imageWidth imageArray = (case imageArray of [] \<Rightarrow> 0 | row0 # _ \<Rightarrow> length row0)"

text \<open>
  The locals \<^verbatim>\<open>brightness\<close> (the mean of the flattened cells, also called \<^verbatim>\<open>mean\<close>) and
  \<^verbatim>\<open>contrast\<close> (the square root of the population variance), as functions of
  \<^verbatim>\<open>flatValues\<close>. \<^verbatim>\<open>reduce((a, b) => ..., 0)\<close> is a left fold.
\<close>

definition brightness :: "real list \<Rightarrow> real" where
  "brightness flatValues =
     (let sum = foldl (\<lambda>a b. a + b) 0 flatValues
      in sum / real (length flatValues))"

definition contrast :: "real list \<Rightarrow> real" where
  "contrast flatValues =
     (let mean = brightness flatValues;
          variance = foldl (\<lambda>a b. a + (b - mean) ^ 2) 0 flatValues
                       / real (length flatValues)
      in sqrt variance)"

text \<open>The empty patch \<^verbatim>\<open>{ newSettings: {} }\<close> is \<open>None\<close>.\<close>

definition analyzeImageForAudioSettings :: "real list list \<Rightarrow> settings_patch option" where
  "analyzeImageForAudioSettings imageArray =
     (let height = length imageArray in
      if height = 0 \<or> imageWidth imageArray = 0
      then None
      else
        let flatValues = concat imageArray;
            duration = 3.0 + brightness flatValues * 9.0;
            freqRange = 2000 + contrast flatValues * 30000;
            minFreq = max 20 (400 - contrast flatValues * 700);
            maxFreq = min 20000 (minFreq + freqRange)
        in Some \<lparr> new_duration = toFixed duration 1,
                  new_minFreq = toFixed minFreq 0,
                  new_maxFreq = toFixed maxFreq 0 \<rparr>)"

section \<open>Synthesis engine\<close>

datatype waveShape = Sin | Square | Sawtooth | Triangle

datatype js_error = RangeError | TypeError

text \<open>
  \<^verbatim>\<open>Array.from({ length: height }, (_, i) => maxFreq - (i / (height - 1)) * (maxFreq - minFreq))\<close>
\<close>

definition freqs :: "nat \<Rightarrow> real \<Rightarrow> real \<Rightarrow> jsnum list" where
  "freqs height minFreq maxFreq =
     map (\<lambda>i. js_minus (Num maxFreq)
                (js_times (js_divide (Num (real i)) (Num (real height - 1)))
                          (Num (maxFreq - minFreq))))
         [0..<height]"

text \<open>The \<^verbatim>\<open>switch (waveShape)\<close> of the innermost loop; \<^verbatim>\<open>'sin'\<close> is also the default.\<close>

definition waveSample :: "waveShape \<Rightarrow> jsnum \<Rightarrow> jsnum \<Rightarrow> jsnum" where
  "waveSample waveShape freq time =
     (let phase = js_times (js_times (js_times (Num 2) (Num pi)) freq) time
      in case waveShape of
           Square \<Rightarrow> (if js_greater_eq (js_sin phase) (Num 0) then Num 1 else Num (- 1))
         | Sawtooth \<Rightarrow>
             (let phaseNormalized = js_times time freq
              in js_times (Num 2)
                   (js_minus phaseNormalized (js_floor (js_plus phaseNormalized (Num 0.5)))))
         | Triangle \<Rightarrow> js_times (js_divide (Num 2) (Num pi)) (js_asin (js_sin phase))
         | Sin \<Rightarrow> js_sin phase)"

text \<open>
  The loop over the rows, for one column and one time. \<^verbatim>\<open>imageArray[row][col]\<close> is
  \<^verbatim>\<open>undefined\<close> in a row shorter than the first one, and \<^verbatim>\<open>undefined > 0\<close> is false.
\<close>

definition rowSum :: "real list list \<Rightarrow> jsnum list \<Rightarrow> waveShape \<Rightarrow> jsnum \<Rightarrow> nat \<Rightarrow> jsnum" where
  "rowSum imageArray freqList waveShape time col =
     fold (\<lambda>row sample.
             case (if col < length (imageArray ! row) then Some (imageArray ! row ! col) else None) of
               None \<Rightarrow> sample
             | Some amplitude \<Rightarrow>
                 if 0 < amplitude
                 then js_plus sample
                        (js_times (Num amplitude) (waveSample waveShape (freqList ! row) time))
                 else sample)
          [0..<length imageArray] (Num 0)"

text \<open>
  The body of the loop over \<^verbatim>\<open>t_idx\<close>, on the state \<open>(audio, maxAmplitude)\<close>. A store into a
  typed array outside its bounds is ignored, as \<open>list_update\<close> does.
\<close>

definition sampleStep ::
  "real list list \<Rightarrow> jsnum list \<Rightarrow> waveShape \<Rightarrow> real \<Rightarrow> nat \<Rightarrow> nat \<Rightarrow> nat
     \<Rightarrow> jsnum list \<times> jsnum \<Rightarrow> jsnum list \<times> jsnum" where
  "sampleStep imageArray freqList waveShape sampleRate samplesPerColumn col t_idx state =
     (case state of (audio, maxAmplitude) \<Rightarrow>
        let time = js_divide (Num (real t_idx)) (Num sampleRate);
            sample = rowSum imageArray freqList waveShape time col;
            audioIndex = col * samplesPerColumn + t_idx
        in (audio[audioIndex := sample],
            if js_greater (js_abs sample) maxAmplitude then js_abs sample else maxAmplitude))"

definition synthesisLoop ::
  "real list list \<Rightarrow> jsnum list \<Rightarrow> waveShape \<Rightarrow> real \<Rightarrow> nat \<Rightarrow> nat
     \<Rightarrow> jsnum list \<times> jsnum \<Rightarrow> jsnum list \<times> jsnum" where
  "synthesisLoop imageArray freqList waveShape sampleRate samplesPerColumn width state =
     fold (\<lambda>col. fold (sampleStep imageArray freqList waveShape sampleRate samplesPerColumn col)
                      [0..<samplesPerColumn])
          [0..<width] state"

text \<open>
  The promise resolves with the signal (\<open>Inr\<close>) or is rejected with the error thrown in its
  executor (\<open>Inl\<close>): \<^verbatim>\<open>new Float32Array(totalSamples)\<close> throws a RangeError for a negative
  length.
\<close>

definition generateAudioFromImage ::
  "real list list \<Rightarrow> real \<Rightarrow> real \<Rightarrow> real \<Rightarrow> real \<Rightarrow> waveShape \<Rightarrow> js_error + jsnum list" where
  "generateAudioFromImage imageArray sampleRate durationPerColumn minFreq maxFreq waveShape =
     (let height = length imageArray;
          width = imageWidth imageArray
      in if width = 0 \<or> height = 0 then Inr []
         else
           let samplesPerColumn = \<lfloor>sampleRate * durationPerColumn\<rfloor>;
               totalSamples = samplesPerColumn * int width
           in if totalSamples < 0 then Inl RangeError
              else
                case synthesisLoop imageArray (freqs height minFreq maxFreq) waveShape
                       sampleRate (nat samplesPerColumn) width
                       (replicate (nat totalSamples) (Num 0), Num 0) of
                  (audio, maxAmplitude) \<Rightarrow>
                    Inr (if js_greater maxAmplitude (Num 0)
                         then map (\<lambda>s. js_divide s maxAmplitude) audio
                         else audio))"

text \<open>
  The invariant of the synthesis loop nest after \<open>k\<close> samples have been stored: the running
  maximum is a finite number \<open>m \<ge> 0\<close>, no stored sample is infinite or exceeds \<open>m\<close> in
  magnitude, and when \<open>m\<close> is positive one of the first \<open>k\<close> samples attains it.
\<close>

definition peak_inv :: "nat \<Rightarrow> jsnum list \<times> jsnum \<Rightarrow> bool" where
  "peak_inv k state =
     (case state of (audio, maxAmplitude) \<Rightarrow>
        \<exists>m. maxAmplitude = Num m \<and> 0 \<le> m
          \<and> (\<forall>s\<in>set audio. s = NaN \<or> (\<exists>x. s = Num x \<and> \<bar>x\<bar> \<le> m))
          \<and> (0 < m \<longrightarrow> (\<exists>i<k. i < length audio \<and> (\<exists>x. audio ! i = Num x \<and> \<bar>x\<bar> = m))))"

section \<open>WAV encoder\<close>

subsection \<open>Number conversions of the DataView setters\<close>

text \<open>
  The integer conversions of ECMAScript (ToUint8, ToUint16, ToInt16, ToUint32) truncate a
  finite number towards zero and reduce it modulo \<open>2^w\<close>; NaN and the infinities convert to
  0. A signed and an unsigned store of the same width write the same bits.
\<close>

definition truncate_js :: "real \<Rightarrow> int" where
  "truncate_js x = (if x < 0 then \<lceil>x\<rceil> else \<lfloor>x\<rfloor>)"

definition ToWord :: "jsnum \<Rightarrow> 'a::len word" where
  "ToWord v = (case v of Num x \<Rightarrow> word_of_int (truncate_js x) | _ \<Rightarrow> 0)"

type_synonym byte = "8 word"

definition le16 :: "16 word \<Rightarrow> byte list" where
  "le16 w = [ucast w, ucast (drop_bit 8 w)]"

definition le32 :: "32 word \<Rightarrow> byte list" where
  "le32 w = [ucast w, ucast (drop_bit 8 w), ucast (drop_bit 16 w), ucast (drop_bit 24 w)]"

subsection \<open>DataView over a fresh ArrayBuffer\<close>

text \<open>
  The buffer is a list of bytes. A setter whose bytes do not all lie inside the buffer
  throws a RangeError in JavaScript: the result \<open>None\<close>.
\<close>

definition store :: "nat \<Rightarrow> byte list \<Rightarrow> byte list \<Rightarrow> byte list option" where
  "store byteOffset bs view =
     (if byteOffset + length bs \<le> length view
      then Some (take byteOffset view @ bs @ drop (byteOffset + length bs) view)
      else None)"

definition setUint8 :: "nat \<Rightarrow> jsnum \<Rightarrow> byte list \<Rightarrow> byte list option" where
  "setUint8 byteOffset v view = store byteOffset [ToWord v] view"

definition setUint16 :: "nat \<Rightarrow> jsnum \<Rightarrow> bool \<Rightarrow> byte list \<Rightarrow> byte list option" where
  "setUint16 byteOffset v littleEndian view =
     store byteOffset (if littleEndian then le16 (ToWord v) else rev (le16 (ToWord v))) view"

definition setInt16 :: "nat \<Rightarrow> jsnum \<Rightarrow> bool \<Rightarrow> byte list \<Rightarrow> byte list option" where
  "setInt16 byteOffset v littleEndian view =
     store byteOffset (if littleEndian then le16 (ToWord v) else rev (le16 (ToWord v))) view"

definition setUint32 :: "nat \<Rightarrow> jsnum \<Rightarrow> bool \<Rightarrow> byte list \<Rightarrow> byte list option" where
  "setUint32 byteOffset v littleEndian view =
     store byteOffset (if littleEndian then le32 (ToWord v) else rev (le32 (ToWord v))) view"

subsection \<open>encodeWAV\<close>

fun writeString :: "nat \<Rightarrow> string \<Rightarrow> byte list \<Rightarrow> byte list option" where
  "writeString offset [] view = Some view"
| "writeString offset (c # str) view =
     setUint8 offset (Num (real (of_char c))) view \<bind> writeString (offset + 1) str"

fun floatTo16BitPCM :: "nat \<Rightarrow> jsnum list \<Rightarrow> byte list \<Rightarrow> byte list option" where
  "floatTo16BitPCM offset [] output = Some output"
| "floatTo16BitPCM offset (x # input) output =
     (let s = js_max (Num (- 1)) (js_min (Num 1) x)
      in setInt16 offset
           (if js_less s (Num 0) then js_times s (Num 32768) else js_times s (Num 32767))
           True output
         \<bind> floatTo16BitPCM (offset + 2) input)"

definition encodeWAV :: "jsnum list \<Rightarrow> real \<Rightarrow> byte list option" where
  "encodeWAV samples sampleRate =
     (let view = replicate (44 + length samples * 2) (0 :: byte) in
      do {
        view \<leftarrow> writeString 0 ''RIFF'' view;
        view \<leftarrow> setUint32 4 (Num (36 + real (length samples) * 2)) True view;
        view \<leftarrow> writeString 8 ''WAVE'' view;
        view \<leftarrow> writeString 12 ''fmt '' view;
        view \<leftarrow> setUint32 16 (Num 16) True view;
        view \<leftarrow> setUint16 20 (Num 1) True view;
        view \<leftarrow> setUint16 22 (Num 1) True view;
        view \<leftarrow> setUint32 24 (Num sampleRate) True view;
        view \<leftarrow> setUint32 28 (Num (sampleRate * 2)) True view;
        view \<leftarrow> setUint16 32 (Num 2) True view;
        view \<leftarrow> setUint16 34 (Num 16) True view;
        view \<leftarrow> writeString 36 ''data'' view;
        view \<leftarrow> setUint32 40 (Num (real (length samples) * 2)) True view;
        view \<leftarrow> floatTo16BitPCM 44 samples view;
        Some view
      })"

subsection \<open>The container layout and the sample quantization, in the specification's words\<close>

text \<open>
  Each sample is clamped to [-1, 1] before quantization to signed 16-bit: negative values
  scale by 32768, non-negative by 32767, truncating towards zero.
\<close>

definition spec_quantize16 :: "real \<Rightarrow> int" where
  "spec_quantize16 x =
     (let c = max (- 1) (min 1 x)
      in if c < 0 then truncate_js (c * 32768) else truncate_js (c * 32767))"

text \<open>
  The two data bytes of a sample, little-endian. Clamping takes the infinities to 1 and -1;
  a NaN sample stays NaN and is stored as 0.
\<close>

definition spec_sample_bytes :: "jsnum \<Rightarrow> byte list" where
  "spec_sample_bytes s =
     (case s of
        Num x \<Rightarrow> le16 (word_of_int (spec_quantize16 x))
      | PInf \<Rightarrow> le16 (word_of_int (spec_quantize16 1))
      | NInf \<Rightarrow> le16 (word_of_int (spec_quantize16 (- 1)))
      | NaN \<Rightarrow> [0, 0])"

definition ascii :: "string \<Rightarrow> byte list" where
  "ascii str = map (\<lambda>c. word_of_nat (of_char c)) str"

text \<open>
  The 44-byte header of the layout table: ChunkID, ChunkSize = 36 + dataBytes, Format,
  Subchunk1ID, Subchunk1Size = 16, AudioFormat = 1, NumChannels = 1, SampleRate,
  ByteRate = SampleRate * 2, BlockAlign = 2, BitsPerSample = 16, Subchunk2ID and
  Subchunk2Size = dataBytes = sampleCount * 2, every number little-endian.
\<close>

definition spec_wav_header :: "nat \<Rightarrow> real \<Rightarrow> byte list" where
  "spec_wav_header sampleCount sampleRate =
     ascii ''RIFF'' @ le32 (word_of_nat (36 + sampleCount * 2)) @ ascii ''WAVE''
     @ ascii ''fmt '' @ le32 16 @ le16 1 @ le16 1
     @ le32 (word_of_int (truncate_js sampleRate))
     @ le32 (word_of_int (truncate_js (sampleRate * 2)))
     @ le16 2 @ le16 16
     @ ascii ''data'' @ le32 (word_of_nat (sampleCount * 2))"

subsection \<open>WAV decoder\<close>

text \<open>
  Modelled from the spec: the decode operation of the WAV codec. The repository has no
  decoder (\<^verbatim>\<open>encodeWAV\<close> is its only WAV function); the specification asks for one that
  parses the same layout back into the sample rate and the signal, reconstructs each sample
  as \<open>int16 / 32768\<close> or \<open>int16 / 32767\<close> matching the scaling of the encoder, and fails
  with a format error on a buffer that is not a WAV container or is truncated.
\<close>

datatype wav_error = MalformedContainer

fun le_nat :: "byte list \<Rightarrow> nat" where
  "le_nat [] = 0"
| "le_nat (b # bs) = unat b + 256 * le_nat bs"

definition bytes_at :: "nat \<Rightarrow> nat \<Rightarrow> byte list \<Rightarrow> byte list" where
  "bytes_at byteOffset n view = take n (drop byteOffset view)"

definition int16_le :: "byte \<Rightarrow> byte \<Rightarrow> int" where
  "int16_le lo hi =
     (let u = unat lo + 256 * unat hi in if u < 32768 then int u else int u - 65536)"

definition decode_sample :: "int \<Rightarrow> real" where
  "decode_sample v = (if v < 0 then real_of_int v / 32768 else real_of_int v / 32767)"

fun decode_samples :: "byte list \<Rightarrow> real list" where
  "decode_samples (lo # hi # rest) = decode_sample (int16_le lo hi) # decode_samples rest"
| "decode_samples _ = []"

definition decodeWAV :: "byte list \<Rightarrow> wav_error + (nat \<times> real list)" where
  "decodeWAV view =
     (if length view < 44 then Inl MalformedContainer
      else
        let sampleRate = le_nat (bytes_at 24 4 view);
            dataBytes = le_nat (bytes_at 40 4 view)
        in if bytes_at 0 4 view \<noteq> ascii ''RIFF''
              \<or> le_nat (bytes_at 4 4 view) \<noteq> 36 + dataBytes
              \<or> bytes_at 8 4 view \<noteq> ascii ''WAVE''
              \<or> bytes_at 12 4 view \<noteq> ascii ''fmt ''
              \<or> le_nat (bytes_at 16 4 view) \<noteq> 16
              \<or> le_nat (bytes_at 20 2 view) \<noteq> 1
              \<or> le_nat (bytes_at 22 2 view) \<noteq> 1
              \<or> le_nat (bytes_at 28 4 view) \<noteq> sampleRate * 2
              \<or> le_nat (bytes_at 32 2 view) \<noteq> 2
              \<or> le_nat (bytes_at 34 2 view) \<noteq> 16
              \<or> bytes_at 36 4 view \<noteq> ascii ''data''
              \<or> odd dataBytes
              \<or> length view \<noteq> 44 + dataBytes
           then Inl MalformedContainer
           else Inr (sampleRate, decode_samples (drop 44 view)))"

section \<open>Spectrogram analyzer\<close>

record Complex =
  re :: jsnum
  im :: jsnum

subsection \<open>fft_radix2\<close>

text \<open>
  \<^verbatim>\<open>x.filter((_, i) => i % 2 === 0)\<close> and \<^verbatim>\<open>x.filter((_, i) => i % 2 !== 0)\<close>: the elements at
  the even and at the odd indices.
\<close>

fun evenIndexed :: "'a list \<Rightarrow> 'a list" where
  "evenIndexed (a # b # xs) = a # evenIndexed xs"
| "evenIndexed xs = xs"

definition oddIndexed :: "'a list \<Rightarrow> 'a list" where
  "oddIndexed xs = evenIndexed (tl xs)"

text \<open>
  One pass of the loop over \<open>k\<close>: the pair \<open>(result[k], result[k + N / 2])\<close>. Reading
  \<^verbatim>\<open>.re\<close> of \<^verbatim>\<open>odd[k]\<close> or \<^verbatim>\<open>even[k]\<close> beyond the end of the array throws a TypeError.
\<close>

definition butterfly ::
  "nat \<Rightarrow> Complex list \<Rightarrow> Complex list \<Rightarrow> nat \<Rightarrow> js_error + (Complex \<times> Complex)" where
  "butterfly N even' odd' k =
     (if k < length odd' \<and> k < length even' then
        let angle = js_divide (js_times (js_times (Num (- 2)) (Num pi)) (Num (real k)))
                      (Num (real N));
            t = \<lparr> re = js_minus (js_times (js_cos angle) (re (odd' ! k)))
                              (js_times (js_sin angle) (im (odd' ! k))),
                  im = js_plus (js_times (js_cos angle) (im (odd' ! k)))
                             (js_times (js_sin angle) (re (odd' ! k))) \<rparr>
        in Inr (\<lparr> re = js_plus (re (even' ! k)) (re t), im = js_plus (im (even' ! k)) (im t) \<rparr>,
                \<lparr> re = js_minus (re (even' ! k)) (re t), im = js_minus (im (even' ! k)) (im t) \<rparr>)
      else Inl TypeError)"

fun butterflies ::
  "nat \<Rightarrow> Complex list \<Rightarrow> Complex list \<Rightarrow> nat list \<Rightarrow> js_error + (Complex \<times> Complex) list" where
  "butterflies N even' odd' [] = Inr []"
| "butterflies N even' odd' (k # ks) =
     (case butterfly N even' odd' k of
        Inl e \<Rightarrow> Inl e
      | Inr p \<Rightarrow>
          (case butterflies N even' odd' ks of
             Inl e \<Rightarrow> Inl e
           | Inr ps \<Rightarrow> Inr (p # ps)))"

text \<open>
  The loop runs for \<open>k < N / 2\<close>. For an even \<open>N\<close> it fills \<open>result[0 .. N/2 - 1]\<close> with the
  first components and \<open>result[N/2 .. N - 1]\<close> with the second ones. For an odd \<open>N > 1\<close>
  the last pass reads \<^verbatim>\<open>odd[k]\<close> beyond the end and throws, so the loop has no result
  and the last branch below is never reached (lemmas \<open>butterflies_odd_length\<close> and
  \<open>fft_radix2_odd_length\<close>).
\<close>

function fft_radix2 :: "Complex list \<Rightarrow> js_error + Complex list" where
  "fft_radix2 x =
     (if length x \<le> 1 then Inr x
      else
        case fft_radix2 (evenIndexed x) of
          Inl e \<Rightarrow> Inl e
        | Inr even' \<Rightarrow>
            (case fft_radix2 (oddIndexed x) of
               Inl e \<Rightarrow> Inl e
             | Inr odd' \<Rightarrow>
                 (case butterflies (length x) even' odd' [0..<(length x + 1) div 2] of
                    Inl e \<Rightarrow> Inl e
                  | Inr ps \<Rightarrow>
                      if length x mod 2 = 0 then Inr (map fst ps @ map snd ps)
                      else Inl TypeError)))"
  by pat_completeness auto
termination
proof (relation "measure length")
  have len: "length (evenIndexed xs) = (length xs + 1) div 2" for xs :: "Complex list"
    by (induction xs rule: evenIndexed.induct) simp_all
  show "wf (measure length)" by simp
  show "(evenIndexed x, x) \<in> measure length" if "\<not> length x \<le> 1" for x :: "Complex list"
    using that by (simp add: len)
  show "(oddIndexed x, x) \<in> measure length" if "\<not> length x \<le> 1" for x :: "Complex list"
    using that by (simp add: len oddIndexed_def)
qed

subsection \<open>computeSpectrogramData\<close>

definition hannWindow :: "nat \<Rightarrow> jsnum list" where
  "hannWindow fftSize =
     map (\<lambda>i. js_times (Num 0.5)
                (js_minus (Num 1)
                   (js_cos (js_divide (js_times (js_times (Num 2) (Num pi)) (Num (real i)))
                                      (Num (real fftSize - 1))))))
         [0..<fftSize]"

text \<open>
  The body of the loop over the frames, from the windowing on: the decibel magnitudes of
  one frame of \<open>fftSize\<close> samples. \<^verbatim>\<open>slice(0, fftSize / 2)\<close> truncates its bound.
\<close>

definition frameSpectrum :: "jsnum list \<Rightarrow> jsnum list \<Rightarrow> nat \<Rightarrow> js_error + jsnum list" where
  "frameSpectrum frame window fftSize =
     (let windowedFrame =
            map (\<lambda>j. \<lparr> re = js_times (frame ! j) (window ! j), im = Num 0 \<rparr>) [0..<fftSize]
      in case fft_radix2 windowedFrame of
           Inl e \<Rightarrow> Inl e
         | Inr fftResult \<Rightarrow>
             let magnitudes =
                   map (\<lambda>c. js_sqrt (js_plus (js_times (re c) (re c)) (js_times (im c) (im c))))
                       (take (fftSize div 2) fftResult);
                 dbMagnitudes =
                   map (\<lambda>mag. js_times (Num 20) (js_log10 (js_plus mag (Num (1 / 10 ^ 10)))))
                       magnitudes
             in Inr dbMagnitudes)"

text \<open>
  The loop \<^verbatim>\<open>for (let i = 0; i < numFrames; i++)\<close> on the state \<open>(spectrogram, times)\<close>.
  \<open>numFrames\<close> is a JavaScript number: against NaN the test fails at once, against
  \<open>Infinity\<close> it never fails. The result \<open>None\<close> stands for a loop that does not end.
\<close>

partial_function (option) frameLoop ::
  "jsnum list \<Rightarrow> nat \<Rightarrow> nat \<Rightarrow> jsnum list \<Rightarrow> jsnum \<Rightarrow> nat
     \<Rightarrow> jsnum list list \<times> jsnum list \<Rightarrow> (js_error + jsnum list list \<times> jsnum list) option" where
  "frameLoop audioBuffer fftSize hopLength window numFrames i state =
     (if js_less (Num (real i)) numFrames then
        let start = i * hopLength;
            frame = take fftSize (drop start audioBuffer)
        in if length frame < fftSize
           then frameLoop audioBuffer fftSize hopLength window numFrames (i + 1) state
           else
             case frameSpectrum frame window fftSize of
               Inl e \<Rightarrow> Some (Inl e)
             | Inr dbMagnitudes \<Rightarrow>
                 frameLoop audioBuffer fftSize hopLength window numFrames (i + 1)
                   (fst state @ [dbMagnitudes],
                    snd state @ [js_divide (Num (real start)) (Num 44100)])
      else Some (Inr state))"

text \<open>
  \<^verbatim>\<open>spectrogram[0] ? spectrogram[0].map((_, colIndex) => spectrogram.map(row => row[colIndex])) : []\<close>.
  Every row of the spectrogram has the length of the first one (lemma
  \<open>frameLoop_rows\<close> below), so \<^verbatim>\<open>row[colIndex]\<close> is always inside the row.
\<close>

definition transposed :: "jsnum list list \<Rightarrow> jsnum list list" where
  "transposed spectrogram =
     (case spectrogram of
        [] \<Rightarrow> []
      | row0 # _ \<Rightarrow> map (\<lambda>colIndex. map (\<lambda>row. row ! colIndex) spectrogram) [0..<length row0])"

text \<open>
  The first part of \<^verbatim>\<open>computeSpectrogramData\<close>, up to the end of the loop: the frame-major
  matrix \<open>spectrogram\<close> and the array \<open>times\<close>.
\<close>

definition spectrogramFrames ::
  "jsnum list \<Rightarrow> nat \<Rightarrow> (js_error + jsnum list list \<times> jsnum list) option" where
  "spectrogramFrames audioBuffer fftSize =
     (let hopLength = fftSize div 4;
          numFrames = js_plus (js_floor (js_divide (Num (real (length audioBuffer) - real fftSize))
                                                   (Num (real hopLength))))
                              (Num 1);
          window = hannWindow fftSize
      in frameLoop audioBuffer fftSize hopLength window numFrames 0 ([], []))"

text \<open>The rest of it; the result is the triple \<open>(data, freqs, times)\<close>.\<close>

definition computeSpectrogramData ::
  "jsnum list \<Rightarrow> nat \<Rightarrow> (js_error + jsnum list list \<times> jsnum list \<times> jsnum list) option" where
  "computeSpectrogramData audioBuffer fftSize =
     (case spectrogramFrames audioBuffer fftSize of
        None \<Rightarrow> None
      | Some (Inl e) \<Rightarrow> Some (Inl e)
      | Some (Inr (spectrogram, times')) \<Rightarrow>
          let binFreqs = map (\<lambda>i. js_divide (Num (real i * 44100)) (Num (real fftSize)))
                             [0..<fftSize div 2]
          in Some (Inr (rev (transposed spectrogram), binFreqs, times')))"

section \<open>Properties of the parameter advisor\<close>

lemma foldl_plus_sum_list:
  fixes s :: real
  shows "foldl (\<lambda>a b. a + f b) s xs = s + sum_list (map f xs)"
  by (induction xs arbitrary: s) simp_all

lemma sum_list_const:
  fixes c :: real
  shows "(\<forall>x\<in>set xs. x = c) \<Longrightarrow> sum_list xs = real (length xs) * c"
  by (induction xs) (simp_all add: algebra_simps)

lemma sum_list_bounds:
  fixes xs :: "real list"
  assumes "\<forall>x\<in>set xs. lo \<le> x \<and> x \<le> hi"
  shows "real (length xs) * lo \<le> sum_list xs \<and> sum_list xs \<le> real (length xs) * hi"
  using assms by (induction xs) (auto simp: algebra_simps)

lemma toFixed_mono: "0 \<le> x \<Longrightarrow> x \<le> y \<Longrightarrow> toFixed x f \<le> toFixed y f"
  unfolding toFixed_def by (simp add: divide_right_mono floor_mono)

lemma toFixed_of_int: "0 \<le> n \<Longrightarrow> toFixed (of_int n) 0 = of_int n"
  unfolding toFixed_def by simp

lemma toFixed_tenths: "0 \<le> n \<Longrightarrow> toFixed (of_int n / 10) 1 = of_int n / 10"
  unfolding toFixed_def by simp

lemma uniform_brightness:
  assumes "xs \<noteq> []" and "\<forall>x\<in>set xs. x = c"
  shows "brightness xs = c"
proof -
  have "foldl (\<lambda>a b. a + b) 0 xs = real (length xs) * c"
    using foldl_plus_sum_list [of "\<lambda>b. b" 0 xs] sum_list_const [OF assms(2)] by simp
  moreover have "real (length xs) \<noteq> 0" using assms(1) by simp
  ultimately show ?thesis by (simp add: brightness_def)
qed

lemma uniform_contrast:
  assumes "xs \<noteq> []" and "\<forall>x\<in>set xs. x = c"
  shows "contrast xs = 0"
proof -
  have "\<forall>x\<in>set (map (\<lambda>b. (b - c)\<^sup>2) xs). x = 0" using assms(2) by auto
  from sum_list_const [OF this] have "foldl (\<lambda>a b. a + (b - c)\<^sup>2) 0 xs = 0"
    using foldl_plus_sum_list [of "\<lambda>b. (b - c)\<^sup>2" 0 xs] by simp
  then show ?thesis by (simp add: contrast_def uniform_brightness [OF assms])
qed

lemma brightness_bounds:
  assumes "xs \<noteq> []" and "\<forall>x\<in>set xs. 0 \<le> x \<and> x \<le> 1"
  shows "0 \<le> brightness xs" and "brightness xs \<le> 1"
proof -
  have len: "0 < real (length xs)" using assms(1) by simp
  from sum_list_bounds [OF assms(2)]
  have "0 \<le> sum_list xs" "sum_list xs \<le> real (length xs)" by simp_all
  then show "0 \<le> brightness xs" and "brightness xs \<le> 1"
    using len foldl_plus_sum_list [of "\<lambda>b. b" 0 xs] by (simp_all add: brightness_def)
qed

lemma contrast_nonneg: "0 \<le> contrast xs"
  unfolding contrast_def Let_def foldl_plus_sum_list
  by (auto intro!: real_sqrt_ge_zero divide_nonneg_nonneg sum_list_nonneg)

text \<open>
  Claim C8, as amended. On a uniform matrix of value 0.5, of any non-empty shape, the
  brightness is 0.5, the contrast is 0, and the advisor returns duration 7.5, minFreq 400
  and maxFreq 2400: with contrast 0 the frequency range is 2000, so maxFreq is
  \<open>min 20000 (400 + 2000)\<close>.
\<close>

theorem advisor_uniform_half:
  "brightness (concat (replicate (Suc h) (replicate (Suc w) (1 / 2)))) = 1 / 2
   \<and> contrast (concat (replicate (Suc h) (replicate (Suc w) (1 / 2)))) = 0
   \<and> analyzeImageForAudioSettings (replicate (Suc h) (replicate (Suc w) (1 / 2)))
       = Some \<lparr> new_duration = 7.5, new_minFreq = 400, new_maxFreq = 2400 \<rparr>"
proof -
  define m :: "real list list" where "m = replicate (Suc h) (replicate (Suc w) (1 / 2))"
  define flat where "flat = concat m"
  have cells: "\<forall>x\<in>set flat. x = 1 / 2" by (auto simp: flat_def m_def)
  have ne: "flat \<noteq> []" by (simp add: flat_def m_def)
  have nonempty: "\<not> (length m = 0 \<or> imageWidth m = 0)"
    by (simp add: m_def imageWidth_def)
  have b: "brightness flat = 1 / 2" by (rule uniform_brightness [OF ne cells])
  have c: "contrast flat = 0" by (rule uniform_contrast [OF ne cells])
  have "analyzeImageForAudioSettings m
     = Some \<lparr> new_duration = 7.5, new_minFreq = 400, new_maxFreq = 2400 \<rparr>"
    unfolding analyzeImageForAudioSettings_def Let_def flat_def [symmetric]
    apply (simp only: nonempty if_False b c)
    apply (simp add: toFixed_def)
    done
  with b c show ?thesis by (simp only: m_def flat_def)
qed

text \<open>
  Claim C8 as stated fails: on the 1 x 1 matrix of value 0.5 the advisor's maxFreq is 2400,
  not 6400.
\<close>

theorem uniform_half_maxFreq_is_2400:
  "analyzeImageForAudioSettings [ [1 / 2] ]
     = Some \<lparr> new_duration = 7.5, new_minFreq = 400, new_maxFreq = 2400 \<rparr>
   \<and> analyzeImageForAudioSettings [ [1 / 2] ]
     \<noteq> Some \<lparr> new_duration = 7.5, new_minFreq = 400, new_maxFreq = 6400 \<rparr>"
  by (simp add: analyzeImageForAudioSettings_def imageWidth_def brightness_def contrast_def
      toFixed_def Let_def)

text \<open>
  Claim C10. For a matrix with at least one row, a non-empty first row and every cell in
  [0, 1], the advisor returns a patch with 20 \<le> minFreq \<le> maxFreq \<le> 20000 and
  3 \<le> duration \<le> 12.
\<close>

theorem advisor_patch_bounds:
  assumes ne: "imageArray \<noteq> []" "hd imageArray \<noteq> []"
      and cells: "\<forall>row\<in>set imageArray. \<forall>x\<in>set row. 0 \<le> x \<and> x \<le> 1"
  shows "\<exists>p. analyzeImageForAudioSettings imageArray = Some p
            \<and> 20 \<le> new_minFreq p \<and> new_minFreq p \<le> new_maxFreq p \<and> new_maxFreq p \<le> 20000
            \<and> 3 \<le> new_duration p \<and> new_duration p \<le> 12"
proof -
  define flat where "flat = concat imageArray"
  define mn where "mn = max 20 (400 - contrast flat * 700)"
  define mx where "mx = min 20000 (mn + (2000 + contrast flat * 30000))"
  define d where "d = 3 + brightness flat * 9"
  obtain r rs where m: "imageArray = r # rs" and r: "r \<noteq> []"
    using ne by (cases imageArray) auto
  have nonempty: "\<not> (length imageArray = 0 \<or> imageWidth imageArray = 0)"
    using r by (simp add: m imageWidth_def)
  have flat_ne: "flat \<noteq> []" using r by (simp add: flat_def m)
  have "\<forall>x\<in>set flat. 0 \<le> x \<and> x \<le> 1" using cells by (auto simp: flat_def)
  note b = brightness_bounds [OF flat_ne this]
  note c = contrast_nonneg [of flat]
  have mn: "20 \<le> mn" "mn \<le> 400" using c by (simp_all add: mn_def)
  have mx: "mn \<le> mx" "mx \<le> 20000" using c mn by (simp_all add: mx_def)
  have d: "3 \<le> d" "d \<le> 12" using b by (simp_all add: d_def)
  have eq: "analyzeImageForAudioSettings imageArray =
     Some \<lparr> new_duration = toFixed d 1, new_minFreq = toFixed mn 0, new_maxFreq = toFixed mx 0 \<rparr>"
    unfolding analyzeImageForAudioSettings_def Let_def
    by (simp only: nonempty if_False flat_def mn_def mx_def d_def) simp
  have "toFixed 20 0 \<le> toFixed mn 0" using mn by (intro toFixed_mono) simp_all
  then have g1: "20 \<le> toFixed mn 0" using toFixed_of_int [of 20] by simp
  have g2: "toFixed mn 0 \<le> toFixed mx 0" using mn mx by (intro toFixed_mono) simp_all
  have "toFixed mx 0 \<le> toFixed 20000 0" using mn mx by (intro toFixed_mono) simp_all
  then have g3: "toFixed mx 0 \<le> 20000" using toFixed_of_int [of 20000] by simp
  have "toFixed 3 1 \<le> toFixed d 1" using d by (intro toFixed_mono) simp_all
  then have g4: "3 \<le> toFixed d 1" using toFixed_tenths [of 30] by simp
  have "toFixed d 1 \<le> toFixed 12 1" using d by (intro toFixed_mono) simp_all
  then have g5: "toFixed d 1 \<le> 12" using toFixed_tenths [of 120] by simp
  show ?thesis using eq g1 g2 g3 g4 g5 by simp
qed

theorem advisor_patch_bounds_witness:
  "\<exists>p. analyzeImageForAudioSettings [ [0, 1] ] = Some p
        \<and> 20 \<le> new_minFreq p \<and> new_minFreq p \<le> new_maxFreq p \<and> new_maxFreq p \<le> 20000
        \<and> 3 \<le> new_duration p \<and> new_duration p \<le> 12"
  using advisor_patch_bounds [of "[ [0, 1] ]"] by simp

section \<open>Properties of the synthesis engine\<close>

lemma upt2: "[0..<2] = [0, Suc 0]" by code_simp


lemma fold_fixed:
  assumes "\<And>x. x \<in> set xs \<Longrightarrow> f x s = s"
  shows "fold f xs s = s"
  using assms by (induction xs) simp_all



lemma generate_empty:
  "imageArray = [] \<or> imageWidth imageArray = 0 \<Longrightarrow>
   generateAudioFromImage imageArray sr d mn mx ws = Inr []"
  by (auto simp: generateAudioFromImage_def Let_def)


lemma replicate_update_same: "(replicate n x)[i := x] = replicate n x"
  by (cases "i < n") (simp_all add: list_update_same_conv list_update_beyond)

lemma rowSum_zero:
  assumes "\<forall>row\<in>set imageArray. \<forall>x\<in>set row. x = 0"
  shows "rowSum imageArray fl ws time col = Num 0"
  unfolding rowSum_def
proof (rule fold_fixed)
  fix row assume "row \<in> set [0..<length imageArray]"
  then have "imageArray ! row \<in> set imageArray" by simp
  then have "col < length (imageArray ! row) \<Longrightarrow> imageArray ! row ! col = 0"
    using assms by (meson nth_mem)
  then show "(case if col < length (imageArray ! row) then Some (imageArray ! row ! col) else None of
       None \<Rightarrow> Num 0
     | Some amplitude \<Rightarrow>
         if 0 < amplitude
         then js_plus (Num 0) (js_times (Num amplitude) (waveSample ws (fl ! row) time))
         else Num 0) = Num 0"
    by simp
qed

lemma synthesisLoop_zero:
  assumes "\<forall>row\<in>set imageArray. \<forall>x\<in>set row. x = 0"
  shows "synthesisLoop imageArray fl ws sr spc width (replicate n (Num 0), Num 0)
     = (replicate n (Num 0), Num 0)"
  unfolding synthesisLoop_def
  by (intro fold_fixed)
     (simp add: sampleStep_def rowSum_zero [OF assms] replicate_update_same js_greater_def Let_def)

lemma generate_zero:
  assumes "\<forall>row\<in>set imageArray. \<forall>x\<in>set row. x = 0" and "0 \<le> sr * d"
  shows "generateAudioFromImage imageArray sr d mn mx ws
     = Inr (replicate (imageWidth imageArray * nat \<lfloor>sr * d\<rfloor>) (Num 0))"
proof (cases "imageArray = [] \<or> imageWidth imageArray = 0")
  case True
  then show ?thesis using generate_empty [OF True] by (auto simp: imageWidth_def)
next
  case False
  let ?spc = "\<lfloor>sr * d\<rfloor>"
  let ?w = "imageWidth imageArray"
  have nn: "0 \<le> ?spc" using assms(2) by simp
  then have "0 \<le> ?spc * int ?w" by (intro mult_nonneg_nonneg) simp_all
  then have tot: "\<not> ?spc * int ?w < 0" by linarith
  have n: "nat (?spc * int ?w) = ?w * nat ?spc" using nn by (simp add: nat_mult_distrib mult.commute)
  show ?thesis
    using False tot
    by (simp add: generateAudioFromImage_def Let_def synthesisLoop_zero [OF assms(1)] n
        js_greater_def)
qed











lemma freqs_nth:
  assumes "row < height"
  shows "freqs height mn mx ! row
     = js_minus (Num mx) (js_times (js_divide (Num (real row)) (Num (real height - 1))) (Num (mx - mn)))"
  using assms by (simp add: freqs_def del: js_divide.simps js_times.simps)



lemma peak_inv_mono:
  assumes "peak_inv k state" and "k \<le> k'"
  shows "peak_inv k' state"
proof -
  obtain audio mxa where st: "state = (audio, mxa)" by (cases state)
  from assms(1) obtain m where m: "mxa = Num m" "0 \<le> m"
      and le: "\<forall>s\<in>set audio. s = NaN \<or> (\<exists>x. s = Num x \<and> \<bar>x\<bar> \<le> m)"
      and wit: "0 < m \<longrightarrow> (\<exists>i<k. i < length audio \<and> (\<exists>x. audio ! i = Num x \<and> \<bar>x\<bar> = m))"
    unfolding peak_inv_def st by auto
  have "0 < m \<longrightarrow> (\<exists>i<k'. i < length audio \<and> (\<exists>x. audio ! i = Num x \<and> \<bar>x\<bar> = m))"
  proof
    assume "0 < m"
    with wit obtain i where i: "i < k" "i < length audio \<and> (\<exists>x. audio ! i = Num x \<and> \<bar>x\<bar> = m)"
      by blast
    from i(1) assms(2) have "i < k'" by simp
    with i(2) show "\<exists>i<k'. i < length audio \<and> (\<exists>x. audio ! i = Num x \<and> \<bar>x\<bar> = m)"
      by blast
  qed
  with m le show ?thesis unfolding peak_inv_def st by simp
qed








lemma freqs_formula:
  assumes "1 < height" and "r < height"
  shows "freqs height minFreq maxFreq ! r
     = Num (maxFreq - real r / (real height - 1) * (maxFreq - minFreq))"
  using assms by (simp add: freqs_nth js_minus_def)

text \<open>
  Claim C7 on a single-row image: the code divides \<open>0\<close> by \<open>height - 1 = 0\<close>, so the one
  frequency is NaN, not maxFreq, and with the sine shape every sample of a dark single-row
  image is NaN.
\<close>

theorem single_row_frequency_is_NaN:
  "freqs 1 minFreq maxFreq = [NaN]
   \<and> generateAudioFromImage [ [1] ] 8 (1 / 4) 1 3 Sin = Inr [NaN, NaN]"
  by (simp add: generateAudioFromImage_def imageWidth_def synthesisLoop_def sampleStep_def
      rowSum_def waveSample_def freqs_def js_minus_def js_greater_def Let_def upt2
      numeral_2_eq_2)




text \<open>
  Claim C9. For an image array whose cells are all 0 (and a sample count that is not
  negative) the running maximum stays 0, so the signal is not divided, and every sample of
  the returned signal is the number 0.
\<close>

theorem silent_image_all_zero:
  assumes "\<forall>row\<in>set imageArray. \<forall>x\<in>set row. x = 0"
      and "0 \<le> sampleRate * durationPerColumn"
  shows "generateAudioFromImage imageArray sampleRate durationPerColumn minFreq maxFreq waveShape
           = Inr (replicate (imageWidth imageArray * nat \<lfloor>sampleRate * durationPerColumn\<rfloor>) (Num 0))
       \<and> synthesisLoop imageArray (freqs (length imageArray) minFreq maxFreq) waveShape sampleRate
           (nat \<lfloor>sampleRate * durationPerColumn\<rfloor>) (imageWidth imageArray)
           (replicate n (Num 0), Num 0)
           = (replicate n (Num 0), Num 0)
       \<and> \<not> js_greater (Num 0) (Num 0)"
  using generate_zero [OF assms] synthesisLoop_zero [OF assms(1)]
  by (simp add: js_greater_def)

theorem silent_image_all_zero_witness:
  "generateAudioFromImage [ [0, 0], [0, 0] ] 8 (1 / 4) 1 3 Sin
     = Inr [Num 0, Num 0, Num 0, Num 0]"
  using silent_image_all_zero [of "[ [0, 0], [0, 0] ]" 8 "1 / 4" 1 3 Sin 0]
  by (simp add: imageWidth_def numeral_eq_Suc)




section \<open>Properties of the WAV encoder\<close>

lemma store_middle:
  "length old = length bs \<Longrightarrow> store (length pre) bs (pre @ old @ rest) = Some (pre @ bs @ rest)"
  by (simp add: store_def)

lemma length_le16 [simp]: "length (le16 w) = 2" by (simp add: le16_def)

lemma length_le32 [simp]: "length (le32 w) = 4" by (simp add: le32_def)

lemma length_ascii [simp]: "length (ascii str) = length str" by (simp add: ascii_def)

lemma ToWord_Num_of_nat: "ToWord (Num (real n)) = word_of_nat n"
  by (simp add: ToWord_def truncate_js_def)

lemma writeString_middle:
  "length old = length str \<Longrightarrow>
   writeString (length pre) str (pre @ old @ rest) = Some (pre @ ascii str @ rest)"
proof (induction str arbitrary: pre old)
  case Nil
  then show ?case by (simp add: ascii_def)
next
  case (Cons c str)
  then obtain o1 old' where old: "old = o1 # old'" and len: "length old' = length str"
    by (cases old) auto
  have "setUint8 (length pre) (Num (real (of_char c))) (pre @ [o1] @ (old' @ rest))
      = Some (pre @ [word_of_nat (of_char c)] @ (old' @ rest))"
    unfolding setUint8_def ToWord_Num_of_nat by (rule store_middle) simp
  moreover have "writeString (length (pre @ [word_of_nat (of_char c)])) str
       ((pre @ [word_of_nat (of_char c)]) @ old' @ rest)
     = Some ((pre @ [word_of_nat (of_char c)]) @ ascii str @ rest)"
    by (rule Cons.IH [OF len])
  ultimately show ?case by (simp add: old ascii_def)
qed

lemma pcm_value:
  "le16 (ToWord (let s = js_max (Num (- 1)) (js_min (Num 1) x)
      in if js_less s (Num 0) then js_times s (Num 32768) else js_times s (Num 32767)))
    = spec_sample_bytes x"
proof (cases x)
  case (Num v)
  then show ?thesis
    by (auto simp add: js_max_def js_min_def ToWord_def spec_sample_bytes_def
        spec_quantize16_def Let_def max_def min_def)
next
  case PInf
  then show ?thesis
    by (simp add: js_max_def js_min_def ToWord_def spec_sample_bytes_def
        spec_quantize16_def Let_def)
next
  case NInf
  then show ?thesis
    by (simp add: js_max_def js_min_def ToWord_def spec_sample_bytes_def
        spec_quantize16_def Let_def)
next
  case NaN
  then show ?thesis
    by (simp add: js_max_def js_min_def ToWord_def spec_sample_bytes_def Let_def le16_def)
qed

lemma floatTo16BitPCM_middle:
  "length old = 2 * length input \<Longrightarrow>
   floatTo16BitPCM (length pre) input (pre @ old @ rest)
     = Some (pre @ concat (map spec_sample_bytes input) @ rest)"
proof (induction input arbitrary: pre old)
  case Nil
  then show ?case by simp
next
  case (Cons x input)
  then obtain o1 o2 old' where old: "old = o1 # o2 # old'" and len: "length old' = 2 * length input"
    by (cases old; cases "tl old") auto
  let ?v = "(let s = js_max (Num (- 1)) (js_min (Num 1) x)
      in if js_less s (Num 0) then js_times s (Num 32768) else js_times s (Num 32767))"
  have sb: "le16 (ToWord ?v) = spec_sample_bytes x" by (rule pcm_value)
  have "setInt16 (length pre) ?v True (pre @ [o1, o2] @ (old' @ rest))
      = Some (pre @ spec_sample_bytes x @ (old' @ rest))"
    unfolding setInt16_def if_True sb [symmetric] by (rule store_middle) simp
  moreover have "floatTo16BitPCM (length (pre @ spec_sample_bytes x)) input
       ((pre @ spec_sample_bytes x) @ old' @ rest)
     = Some ((pre @ spec_sample_bytes x) @ concat (map spec_sample_bytes input) @ rest)"
    by (rule Cons.IH [OF len])
  moreover have "length (spec_sample_bytes x) = 2" by (cases x) (simp_all add: spec_sample_bytes_def)
  ultimately show ?case by (simp add: old Let_def)
qed

lemma store_zeros:
  "byteOffset = length pre \<Longrightarrow> m = length bs + k \<Longrightarrow>
   store byteOffset bs (pre @ replicate m 0) = Some ((pre @ bs) @ replicate k 0)"
  using store_middle [of "replicate (length bs) 0" bs pre "replicate k 0"]
  by (simp add: replicate_add)

lemma writeString_zeros:
  "offset = length pre \<Longrightarrow> m = length str + k \<Longrightarrow>
   writeString offset str (pre @ replicate m 0) = Some ((pre @ ascii str) @ replicate k 0)"
  using writeString_middle [of "replicate (length str) 0" str pre "replicate k 0"]
  by (simp add: replicate_add)

lemma floatTo16BitPCM_zeros:
  "offset = length pre \<Longrightarrow> m = 2 * length input \<Longrightarrow>
   floatTo16BitPCM offset input (pre @ replicate m 0) = Some (pre @ concat (map spec_sample_bytes input))"
  using floatTo16BitPCM_middle [of "replicate (2 * length input) 0" input pre "[]"]
  by simp

lemma encodeWAV_bytes:
  "encodeWAV samples sampleRate
     = Some (spec_wav_header (length samples) sampleRate @ concat (map spec_sample_bytes samples))"
proof -
  let ?n = "length samples"
  let ?z = "\<lambda>k. replicate k (0 :: byte)"
  let ?f1 = "ascii ''RIFF''"
  let ?f2 = "?f1 @ le32 (word_of_nat (36 + ?n * 2))"
  let ?f3 = "?f2 @ ascii ''WAVE''"
  let ?f4 = "?f3 @ ascii ''fmt ''"
  let ?f5 = "?f4 @ le32 16"
  let ?f6 = "?f5 @ le16 1"
  let ?f7 = "?f6 @ le16 1"
  let ?f8 = "?f7 @ le32 (word_of_int (truncate_js sampleRate))"
  let ?f9 = "?f8 @ le32 (word_of_int (truncate_js (sampleRate * 2)))"
  let ?f10 = "?f9 @ le16 2"
  let ?f11 = "?f10 @ le16 16"
  let ?f12 = "?f11 @ ascii ''data''"
  let ?f13 = "?f12 @ le32 (word_of_nat (?n * 2))"
  have w16: "ToWord (Num 16) = (16 :: 'a::len word)" "ToWord (Num 1) = (1 :: 'a word)"
    "ToWord (Num 2) = (2 :: 'a word)"
    by (simp_all add: ToWord_def truncate_js_def)
  have wn: "ToWord (Num (36 + real ?n * 2)) = (word_of_nat (36 + ?n * 2) :: 32 word)"
    "ToWord (Num (real ?n * 2)) = (word_of_nat (?n * 2) :: 32 word)"
    using ToWord_Num_of_nat [of "36 + ?n * 2", where 'a=32]
      ToWord_Num_of_nat [of "?n * 2", where 'a=32]
    by simp_all
  have wr: "ToWord (Num r) = (word_of_int (truncate_js r) :: 32 word)" for r
    by (simp add: ToWord_def)
  have s1: "writeString 0 ''RIFF'' (?z (44 + ?n * 2)) = Some (?f1 @ ?z (40 + ?n * 2))"
    using writeString_zeros [of 0 "[]" "44 + ?n * 2" "''RIFF''" "40 + ?n * 2"] by simp
  have s2: "setUint32 4 (Num (36 + real ?n * 2)) True (?f1 @ ?z (40 + ?n * 2))
      = Some (?f2 @ ?z (36 + ?n * 2))"
    unfolding setUint32_def if_True wn by (rule store_zeros) simp_all
  have s3: "writeString 8 ''WAVE'' (?f2 @ ?z (36 + ?n * 2)) = Some (?f3 @ ?z (32 + ?n * 2))"
    by (rule writeString_zeros) simp_all
  have s4: "writeString 12 ''fmt '' (?f3 @ ?z (32 + ?n * 2)) = Some (?f4 @ ?z (28 + ?n * 2))"
    by (rule writeString_zeros) simp_all
  have s5: "setUint32 16 (Num 16) True (?f4 @ ?z (28 + ?n * 2)) = Some (?f5 @ ?z (24 + ?n * 2))"
    unfolding setUint32_def if_True w16 by (rule store_zeros) simp_all
  have s6: "setUint16 20 (Num 1) True (?f5 @ ?z (24 + ?n * 2)) = Some (?f6 @ ?z (22 + ?n * 2))"
    unfolding setUint16_def if_True w16 by (rule store_zeros) simp_all
  have s7: "setUint16 22 (Num 1) True (?f6 @ ?z (22 + ?n * 2)) = Some (?f7 @ ?z (20 + ?n * 2))"
    unfolding setUint16_def if_True w16 by (rule store_zeros) simp_all
  have s8: "setUint32 24 (Num sampleRate) True (?f7 @ ?z (20 + ?n * 2))
      = Some (?f8 @ ?z (16 + ?n * 2))"
    unfolding setUint32_def if_True wr by (rule store_zeros) simp_all
  have s9: "setUint32 28 (Num (sampleRate * 2)) True (?f8 @ ?z (16 + ?n * 2))
      = Some (?f9 @ ?z (12 + ?n * 2))"
    unfolding setUint32_def if_True wr by (rule store_zeros) simp_all
  have s10: "setUint16 32 (Num 2) True (?f9 @ ?z (12 + ?n * 2)) = Some (?f10 @ ?z (10 + ?n * 2))"
    unfolding setUint16_def if_True w16 by (rule store_zeros) simp_all
  have s11: "setUint16 34 (Num 16) True (?f10 @ ?z (10 + ?n * 2)) = Some (?f11 @ ?z (8 + ?n * 2))"
    unfolding setUint16_def if_True w16 by (rule store_zeros) simp_all
  have s12: "writeString 36 ''data'' (?f11 @ ?z (8 + ?n * 2)) = Some (?f12 @ ?z (4 + ?n * 2))"
    by (rule writeString_zeros) simp_all
  have s13: "setUint32 40 (Num (real ?n * 2)) True (?f12 @ ?z (4 + ?n * 2))
      = Some (?f13 @ ?z (?n * 2))"
    unfolding setUint32_def if_True wn by (rule store_zeros) simp_all
  have s14: "floatTo16BitPCM 44 samples (?f13 @ ?z (?n * 2))
      = Some (?f13 @ concat (map spec_sample_bytes samples))"
    by (rule floatTo16BitPCM_zeros) simp_all
  have "encodeWAV samples sampleRate
      = Some (?f13 @ concat (map spec_sample_bytes samples))"
    unfolding encodeWAV_def Let_def
    by (simp only: s1 s2 s3 s4 s5 s6 s7 s8 s9 s10 s11 s12 s13 s14 Option.bind.simps)
  then show ?thesis by (simp add: spec_wav_header_def)
qed

lemma length_spec_sample_bytes [simp]: "length (spec_sample_bytes s) = 2"
  by (cases s) (simp_all add: spec_sample_bytes_def)

lemma length_sample_bytes: "length (concat (map spec_sample_bytes samples)) = length samples * 2"
proof (induction samples)
  case Nil
  then show ?case by simp
next
  case (Cons s samples)
  then show ?case by (cases s) (simp_all add: spec_sample_bytes_def)
qed

lemma length_spec_wav_header [simp]: "length (spec_wav_header n sr) = 44"
  by (simp add: spec_wav_header_def)

text \<open>
  Claim C3. For every signal and sample rate the encoder returns (no setter is out of
  range) the 44-byte header of the layout table followed by two little-endian bytes per
  sample, 44 + 2 * sampleCount bytes in all; each sample is clamped to [-1, 1] and scaled by
  32768 when negative and by 32767 otherwise. The signal [1.0, -1.0] at 8000 Hz gives 48
  bytes that end with the int16 values 32767 and -32768.
\<close>

theorem wav_encoder_layout:
  "encodeWAV samples sampleRate
     = Some (spec_wav_header (length samples) sampleRate @ concat (map spec_sample_bytes samples))
   \<and> length (spec_wav_header (length samples) sampleRate
         @ concat (map spec_sample_bytes samples)) = 44 + 2 * length samples
   \<and> encodeWAV [Num 1, Num (- 1)] 8000
     = Some [82, 73, 70, 70, 40, 0, 0, 0, 87, 65, 86, 69, 102, 109, 116, 32, 16, 0, 0, 0,
             1, 0, 1, 0, 64, 31, 0, 0, 128, 62, 0, 0, 2, 0, 16, 0, 100, 97, 116, 97,
             4, 0, 0, 0, 255, 127, 0, 128]
   \<and> le16 (word_of_int 32767) = [255, 127]
   \<and> le16 (word_of_int (- 32768)) = [0, 128]"
proof -
  have "encodeWAV [Num 1, Num (- 1)] 8000
     = Some [82, 73, 70, 70, 40, 0, 0, 0, 87, 65, 86, 69, 102, 109, 116, 32, 16, 0, 0, 0,
             1, 0, 1, 0, 64, 31, 0, 0, 128, 62, 0, 0, 2, 0, 16, 0, 100, 97, 116, 97,
             4, 0, 0, 0, 255, 127, 0, 128]"
    unfolding encodeWAV_bytes
    by (simp add: spec_wav_header_def ascii_def le32_def le16_def spec_sample_bytes_def
        spec_quantize16_def truncate_js_def)
  moreover have "le16 (word_of_int 32767) = [255, 127]" "le16 (word_of_int (- 32768)) = [0, 128]"
    by (simp_all add: le16_def)
  ultimately show ?thesis
    by (simp add: encodeWAV_bytes length_sample_bytes)
qed


section \<open>Properties of the WAV decoder\<close>

lemma split_bytes2:
  fixes x :: nat
  assumes "x < 65536"
  shows "x mod 256 + 256 * (x div 256 mod 256) = x"
proof -
  have "x div 256 < 256" using assms by simp
  then show ?thesis by simp
qed

lemma split_bytes4:
  fixes x :: nat
  assumes "x < 4294967296"
  shows "x mod 256 + (256 * (x div 256 mod 256) +
      (65536 * (x div 65536 mod 256) + 16777216 * (x div 16777216 mod 256))) = x"
proof -
  define a where "a = x div 256"
  define b where "b = a div 256"
  define c where "c = b div 256"
  define m0 where "m0 = x mod 256"
  define m1 where "m1 = a mod 256"
  define m2 where "m2 = b mod 256"
  have d: "x div 65536 = b" "x div 16777216 = c"
    by (simp_all add: a_def b_def c_def div_mult2_eq)
  have "c < 256" using assms by (simp add: a_def b_def c_def div_mult2_eq)
  then have m3: "c mod 256 = c" by simp
  have 1: "x = m0 + 256 * a" by (simp add: a_def m0_def)
  have 2: "a = m1 + 256 * b" by (simp add: b_def m1_def)
  have 3: "b = m2 + 256 * c" by (simp add: c_def m2_def)
  have "m0 + (256 * m1 + (65536 * m2 + 16777216 * c)) = x"
    using 1 2 3 by linarith
  then show ?thesis
    unfolding d m3 m0_def m1_def m2_def a_def [symmetric] b_def [symmetric] .
qed

lemma le_nat_le16: "le_nat (le16 w) = unat w"
proof -
  have "unat w < 65536" using unsigned_less [of w, where 'a=nat] by simp
  have e: "le_nat (le16 w) = unat w mod 256 + 256 * (unat w div 256 mod 256)"
    by (simp add: le16_def unsigned_ucast_eq unat_drop_bit_eq take_bit_eq_mod drop_bit_eq_div
        unat_div_distrib)
  show ?thesis unfolding e by (rule split_bytes2) fact
qed

lemma le_nat_le32: "le_nat (le32 w) = unat w"
proof -
  have "unat w < 4294967296" using unsigned_less [of w, where 'a=nat] by simp
  have e: "le_nat (le32 w) = unat w mod 256 + (256 * (unat w div 256 mod 256) +
      (65536 * (unat w div 65536 mod 256) + 16777216 * (unat w div 16777216 mod 256)))"
    by (simp add: le32_def unsigned_ucast_eq unat_drop_bit_eq take_bit_eq_mod drop_bit_eq_div
        unat_div_distrib)
  show ?thesis unfolding e by (rule split_bytes4) fact
qed

lemma truncate_js_of_nat [simp]: "truncate_js (real n) = int n"
  by (simp add: truncate_js_def)

lemma header_fields:
  "bytes_at 0 4 (spec_wav_header n sr @ data) = ascii ''RIFF''"
  "bytes_at 4 4 (spec_wav_header n sr @ data) = le32 (word_of_nat (36 + n * 2))"
  "bytes_at 8 4 (spec_wav_header n sr @ data) = ascii ''WAVE''"
  "bytes_at 12 4 (spec_wav_header n sr @ data) = ascii ''fmt ''"
  "bytes_at 16 4 (spec_wav_header n sr @ data) = le32 16"
  "bytes_at 20 2 (spec_wav_header n sr @ data) = le16 1"
  "bytes_at 22 2 (spec_wav_header n sr @ data) = le16 1"
  "bytes_at 24 4 (spec_wav_header n sr @ data) = le32 (word_of_int (truncate_js sr))"
  "bytes_at 28 4 (spec_wav_header n sr @ data) = le32 (word_of_int (truncate_js (sr * 2)))"
  "bytes_at 32 2 (spec_wav_header n sr @ data) = le16 2"
  "bytes_at 34 2 (spec_wav_header n sr @ data) = le16 16"
  "bytes_at 36 4 (spec_wav_header n sr @ data) = ascii ''data''"
  "bytes_at 40 4 (spec_wav_header n sr @ data) = le32 (word_of_nat (n * 2))"
  "drop 44 (spec_wav_header n sr @ data) = data"
  by (simp_all add: bytes_at_def spec_wav_header_def)

lemma decodeWAV_header:
  assumes "36 + n * 2 < 2 ^ 32" and "sr * 2 < 2 ^ 32"
  shows "decodeWAV (spec_wav_header n (real sr) @ data)
     = (if length data = n * 2 then Inr (sr, decode_samples data) else Inl MalformedContainer)"
proof -
  have sr2: "truncate_js (real sr * 2) = int (sr * 2)"
    using truncate_js_of_nat [of "sr * 2"] by simp
  have small: "unat (word_of_nat k :: 32 word) = k" if "k < 2 ^ 32" for k
    using that by (simp add: unat_of_nat)
  have u: "unat (word_of_nat (36 + n * 2) :: 32 word) = 36 + n * 2"
    "unat (word_of_nat (n * 2) :: 32 word) = n * 2"
    "unat (word_of_nat sr :: 32 word) = sr"
    "unat (word_of_nat (sr * 2) :: 32 word) = sr * 2"
    by (rule small, use assms in simp)+
  show ?thesis
    unfolding decodeWAV_def Let_def header_fields le_nat_le32 le_nat_le16 sr2
      truncate_js_of_nat of_int_of_nat_eq u
    by simp
qed

lemma spec_quantize16_in_range:
  assumes "- 1 \<le> x" and "x \<le> 1"
  shows "spec_quantize16 x = (if x < 0 then \<lceil>x * 32768\<rceil> else \<lfloor>x * 32767\<rfloor>)"
proof -
  have c: "max (- 1) (min 1 x) = x" using assms by simp
  show ?thesis unfolding spec_quantize16_def c Let_def truncate_js_def by simp
qed

lemma spec_quantize16_range:
  assumes "- 1 \<le> x" and "x \<le> 1"
  shows "- 32768 \<le> spec_quantize16 x" and "spec_quantize16 x \<le> 32767"
proof -
  note q = spec_quantize16_in_range [OF assms]
  show "- 32768 \<le> spec_quantize16 x"
  proof (cases "x < 0")
    case True
    have "- 32768 \<le> x * 32768" using assms by simp
    then have "- 32768 \<le> \<lceil>x * 32768\<rceil>" by linarith
    then show ?thesis using True by (simp add: q)
  next
    case False
    then have "0 \<le> x * 32767" by simp
    then have "0 \<le> \<lfloor>x * 32767\<rfloor>" by simp
    then show ?thesis using False by (simp add: q)
  qed
  show "spec_quantize16 x \<le> 32767"
  proof (cases "x < 0")
    case True
    then have "x * 32768 \<le> 0" by simp
    then have "\<lceil>x * 32768\<rceil> \<le> 0" by (simp add: ceiling_le_zero)
    then show ?thesis using True by (simp add: q)
  next
    case False
    have "x * 32767 \<le> 32767" using assms by simp
    then have "\<lfloor>x * 32767\<rfloor> \<le> 32767" by linarith
    then show ?thesis using False by (simp add: q)
  qed
qed

lemma int16_le_le16:
  assumes "- 32768 \<le> q" and "q \<le> 32767"
  shows "int16_le (ucast (word_of_int q :: 16 word)) (ucast (drop_bit 8 (word_of_int q :: 16 word))) = q"
proof -
  let ?w = "word_of_int q :: 16 word"
  define n where "n = unat ?w"
  have "le_nat (le16 ?w) = unat ?w" by (rule le_nat_le16)
  then have u: "unat (ucast ?w :: byte) + 256 * unat (ucast (drop_bit 8 ?w) :: byte) = n"
    by (simp add: le16_def n_def)
  have "uint ?w = q mod 65536" by (simp add: uint_word_of_int)
  then have v: "int n = q mod 65536" by (simp add: n_def)
  have r: "int16_le (ucast ?w) (ucast (drop_bit 8 ?w)) = (if n < 32768 then int n else int n - 65536)"
    unfolding int16_le_def Let_def u ..
  show ?thesis
  proof (cases "q < 0")
    case True
    have "(q + 65536) mod 65536 = q + 65536" using True assms by (intro mod_pos_pos_trivial) simp_all
    then have "q mod 65536 = q + 65536" by simp
    with v True assms show ?thesis unfolding r by simp
  next
    case False
    then have "q mod 65536 = q" using assms by simp
    with v False assms show ?thesis unfolding r by simp
  qed
qed

lemma decode_quantize_error:
  assumes "- 1 \<le> x" and "x \<le> 1"
  shows "\<bar>decode_sample (spec_quantize16 x) - x\<bar> < 1 / 32767"
proof -
  note qr = spec_quantize16_in_range [OF assms]
  define d where "d = decode_sample (spec_quantize16 x)"
  have "x - 1 / 32767 < d \<and> d < x + 1 / 32767"
  proof (cases "x < 0")
    case True
    define c where "c = real_of_int \<lceil>x * 32768\<rceil>"
    have q: "spec_quantize16 x = \<lceil>x * 32768\<rceil>" using True by (simp add: qr)
    have up: "x * 32768 \<le> c" and lo: "c < x * 32768 + 1"
      unfolding c_def by linarith+
    show ?thesis
    proof (cases "\<lceil>x * 32768\<rceil> < 0")
      case True
      then have "d = c / 32768" by (simp add: d_def decode_sample_def q c_def)
      then have "d * 32768 = c" by simp
      with up lo show ?thesis by linarith
    next
      case False
      have "x * 32768 \<le> 0" using \<open>x < 0\<close> by simp
      then have "\<lceil>x * 32768\<rceil> \<le> 0" by (simp add: ceiling_le_zero)
      with False have z: "\<lceil>x * 32768\<rceil> = 0" by linarith
      then have "d = 0" "c = 0" by (simp_all add: d_def decode_sample_def q c_def)
      with up lo \<open>x < 0\<close> show ?thesis by linarith
    qed
  next
    case False
    define c where "c = real_of_int \<lfloor>x * 32767\<rfloor>"
    have q: "spec_quantize16 x = \<lfloor>x * 32767\<rfloor>" using False by (simp add: qr)
    have up: "c \<le> x * 32767" and lo: "x * 32767 < c + 1"
      unfolding c_def by linarith+
    have "0 \<le> \<lfloor>x * 32767\<rfloor>" using False by simp
    then have "d = c / 32767" by (simp add: d_def decode_sample_def q c_def)
    then have "d * 32767 = c" by simp
    with up lo show ?thesis by linarith
  qed
  then have "\<bar>d - x\<bar> < 1 / 32767" by linarith
  then show ?thesis unfolding d_def .
qed

lemma decode_samples_step:
  assumes "- 1 \<le> x" and "x \<le> 1"
  shows "decode_samples (spec_sample_bytes (Num x) @ rest)
     = decode_sample (spec_quantize16 x) # decode_samples rest"
  using int16_le_le16 [OF spec_quantize16_range [OF assms]]
  by (simp add: spec_sample_bytes_def le16_def)

lemma decode_samples_encoded:
  assumes "\<forall>x\<in>set xs. - 1 \<le> x \<and> x \<le> 1"
  shows "decode_samples (concat (map spec_sample_bytes (map Num xs)))
     = map (\<lambda>x. decode_sample (spec_quantize16 x)) xs"
  using assms
proof (induction xs)
  case Nil
  then show ?case by simp
next
  case (Cons x xs)
  then have "- 1 \<le> x" "x \<le> 1" by simp_all
  from decode_samples_step [OF this] Cons show ?case by simp
qed


lemma decodeWAV_short: "length view < 44 \<Longrightarrow> decodeWAV view = Inl MalformedContainer"
  by (simp add: decodeWAV_def)

lemma decodeWAV_bad_magic:
  "bytes_at 0 4 view \<noteq> ascii ''RIFF'' \<Longrightarrow> decodeWAV view = Inl MalformedContainer"
  by (simp add: decodeWAV_def Let_def)

text \<open>
  Claim C4, as amended. For a signal of reals in [-1, 1] and a sample rate that is a natural
  number below \<open>2^31\<close> (so that the byte rate fits its field), with a chunk size below
  \<open>2^32\<close>, decoding the encoded bytes gives back the sample rate and a signal of the same
  length whose samples differ from the originals by less than 1/32767; every proper prefix
  of the encoded bytes, every buffer shorter than 44 bytes and every buffer that does not
  start with the RIFF tag is rejected as a malformed container.
\<close>

theorem wav_roundtrip:
  assumes range: "\<forall>x\<in>set xs. - 1 \<le> x \<and> x \<le> 1"
      and rate: "sampleRate * 2 < 2 ^ 32"
      and size: "36 + length xs * 2 < 2 ^ 32"
  shows "\<exists>bytes signal.
           encodeWAV (map Num xs) (real sampleRate) = Some bytes
         \<and> decodeWAV bytes = Inr (sampleRate, signal)
         \<and> length signal = length xs
         \<and> (\<forall>i<length xs. \<bar>signal ! i - xs ! i\<bar> < 1 / 32767)
         \<and> (\<forall>k<length bytes. decodeWAV (take k bytes) = Inl MalformedContainer)
         \<and> (\<forall>view. length view < 44 \<or> bytes_at 0 4 view \<noteq> ascii ''RIFF''
               \<longrightarrow> decodeWAV view = Inl MalformedContainer)"
proof -
  define data where "data = concat (map spec_sample_bytes (map Num xs))"
  define bytes where "bytes = spec_wav_header (length xs) (real sampleRate) @ data"
  define signal where "signal = map (\<lambda>x. decode_sample (spec_quantize16 x)) xs"
  have len_data: "length data = length xs * 2"
    using length_sample_bytes [of "map Num xs"] by (simp add: data_def)
  have enc: "encodeWAV (map Num xs) (real sampleRate) = Some bytes"
    using encodeWAV_bytes [of "map Num xs" "real sampleRate"] by (simp add: bytes_def data_def)
  have size': "36 + length xs * 2 < (2 :: nat) ^ 32" using size .
  note hdr = decodeWAV_header [OF size' rate]
  have dec: "decodeWAV bytes = Inr (sampleRate, signal)"
    unfolding bytes_def hdr
    using len_data decode_samples_encoded [OF range] by (simp add: data_def signal_def)
  have err: "\<bar>signal ! i - xs ! i\<bar> < 1 / 32767" if "i < length xs" for i
  proof -
    have "xs ! i \<in> set xs" using that by simp
    then have "- 1 \<le> xs ! i" "xs ! i \<le> 1" using range by auto
    from decode_quantize_error [OF this] show ?thesis using that by (simp add: signal_def)
  qed
  have trunc: "decodeWAV (take k bytes) = Inl MalformedContainer" if "k < length bytes" for k
  proof (cases "k < 44")
    case True
    then have "length (take k bytes) < 44" by simp
    then show ?thesis by (rule decodeWAV_short)
  next
    case False
    then have "take k bytes = spec_wav_header (length xs) (real sampleRate) @ take (k - 44) data"
      by (simp add: bytes_def)
    moreover have "length (take (k - 44) data) \<noteq> length xs * 2"
      using that False len_data by (simp add: bytes_def)
    ultimately show ?thesis by (simp add: hdr)
  qed
  have bad: "decodeWAV view = Inl MalformedContainer"
    if "length view < 44 \<or> bytes_at 0 4 view \<noteq> ascii ''RIFF''" for view
    using that decodeWAV_short decodeWAV_bad_magic by blast
  show ?thesis using enc dec err trunc bad by (auto simp: signal_def)
qed

theorem wav_roundtrip_witness:
  "\<exists>bytes signal.
      encodeWAV (map Num [1 / 2, - 1, 0]) (real 8000) = Some bytes
    \<and> decodeWAV bytes = Inr (8000, signal)
    \<and> length signal = 3
    \<and> decodeWAV (take 49 bytes) = Inl MalformedContainer"
proof -
  obtain bytes signal where
    "encodeWAV (map Num [1 / 2, - 1, 0]) (real 8000) = Some bytes"
    "decodeWAV bytes = Inr (8000, signal)"
    "length signal = length [1 / 2, - 1, 0 :: real]"
    "\<forall>k<length bytes. decodeWAV (take k bytes) = Inl MalformedContainer"
    using wav_roundtrip [of "[1 / 2, - 1, 0]" 8000] by auto
  moreover from this(1) have "length bytes = 50"
    unfolding encodeWAV_bytes by (auto simp: length_sample_bytes)
  ultimately show ?thesis by auto
qed

text \<open>
  Claim C4 as stated fails for a sample outside [-1, 1]: the encoder clamps, so 2.0 and 1.0
  are encoded to the same bytes and decode to 1.0, which is 1 away from 2.0.
\<close>

theorem clamped_sample_not_recovered:
  "encodeWAV [Num 2] 8000 = encodeWAV [Num 1] 8000
   \<and> (encodeWAV [Num 2] 8000 \<bind> (\<lambda>bytes. Some (decodeWAV bytes))) = Some (Inr (8000, [1]))
   \<and> \<not> \<bar>1 - 2 :: real\<bar> \<le> 1 / 32768"
proof -
  have b: "encodeWAV [Num 2] 8000
     = Some [82, 73, 70, 70, 38, 0, 0, 0, 87, 65, 86, 69, 102, 109, 116, 32, 16, 0, 0, 0,
             1, 0, 1, 0, 64, 31, 0, 0, 128, 62, 0, 0, 2, 0, 16, 0, 100, 97, 116, 97,
             2, 0, 0, 0, 255, 127]"
    unfolding encodeWAV_bytes
    by (simp add: spec_wav_header_def ascii_def le32_def le16_def spec_sample_bytes_def
        spec_quantize16_def truncate_js_def)
  have c: "encodeWAV [Num 1] 8000 = encodeWAV [Num 2] 8000"
    unfolding encodeWAV_bytes
    by (simp add: spec_sample_bytes_def spec_quantize16_def truncate_js_def)
  have d: "decodeWAV [82, 73, 70, 70, 38, 0, 0, 0, 87, 65, 86, 69, 102, 109, 116, 32, 16, 0, 0, 0,
             1, 0, 1, 0, 64, 31, 0, 0, 128, 62, 0, 0, 2, 0, 16, 0, 100, 97, 116, 97,
             2, 0, 0, 0, 255, 127] = Inr (8000, [1])"
    by (simp add: decodeWAV_def bytes_at_def ascii_def int16_le_def decode_sample_def Let_def)
  show ?thesis using b c d by simp
qed


section \<open>Properties of the spectrogram analyzer\<close>

declare fft_radix2.simps [simp del]

lemma length_evenIndexed: "length (evenIndexed xs) = (length xs + 1) div 2"
  by (induction xs rule: evenIndexed.induct) simp_all

lemma length_oddIndexed: "length (oddIndexed xs) = length xs div 2"
  by (cases xs) (simp_all add: oddIndexed_def length_evenIndexed)

lemma butterfly_in_range:
  assumes "k < length odd'" and "k < length even'"
  shows "\<exists>p. butterfly N even' odd' k = Inr p"
  using assms by (simp add: butterfly_def Let_def)

lemma butterflies_in_range:
  assumes "\<forall>k\<in>set ks. k < length odd' \<and> k < length even'"
  shows "\<exists>ps. butterflies N even' odd' ks = Inr ps \<and> length ps = length ks"
  using assms
proof (induction ks)
  case Nil
  then show ?case by simp
next
  case (Cons k ks)
  then obtain p where p: "butterfly N even' odd' k = Inr p"
    using butterfly_in_range [of k odd' even' N] by auto
  from Cons obtain ps where "butterflies N even' odd' ks = Inr ps" "length ps = length ks"
    by auto
  with p show ?case by simp
qed

lemma butterflies_out_of_range:
  assumes "k \<in> set ks" and "\<not> k < length odd'"
  shows "butterflies N even' odd' ks = Inl TypeError"
  using assms
proof (induction ks)
  case Nil
  then show ?case by simp
next
  case (Cons j ks)
  show ?case
  proof (cases "butterfly N even' odd' j")
    case (Inl e)
    then have "e = TypeError" by (simp add: butterfly_def Let_def split: if_splits)
    with Inl show ?thesis by simp
  next
    case (Inr p)
    then have "j < length odd'" by (simp add: butterfly_def Let_def split: if_splits)
    with Cons.prems have "k \<in> set ks" by auto
    with Cons have "butterflies N even' odd' ks = Inl TypeError" by simp
    with Inr show ?thesis by simp
  qed
qed

lemma fft_radix2_pow2:
  assumes "length x = 2 ^ n"
  shows "\<exists>r. fft_radix2 x = Inr r \<and> length r = 2 ^ n"
  using assms
proof (induction n arbitrary: x)
  case 0
  then show ?case by (simp add: fft_radix2.simps)
next
  case (Suc n)
  have le: "length (evenIndexed x) = 2 ^ n" and lo: "length (oddIndexed x) = 2 ^ n"
    using Suc.prems by (simp_all add: length_evenIndexed length_oddIndexed)
  from Suc.IH [OF le] obtain even' where e: "fft_radix2 (evenIndexed x) = Inr even'"
    "length even' = 2 ^ n" by auto
  from Suc.IH [OF lo] obtain odd' where o: "fft_radix2 (oddIndexed x) = Inr odd'"
    "length odd' = 2 ^ n" by auto
  have ks: "[0..<(length x + 1) div 2] = [0..<2 ^ n]" using Suc.prems by simp
  have "\<forall>k\<in>set [0..<2 ^ n]. k < length odd' \<and> k < length even'" using e o by simp
  from butterflies_in_range [OF this] obtain ps where
    ps: "butterflies (length x) even' odd' [0..<2 ^ n] = Inr ps" "length ps = 2 ^ n"
    by auto
  have p: "(1 :: nat) \<le> 2 ^ n" by simp
  have "length x = 2 * 2 ^ n" using Suc.prems by simp
  with p have "2 \<le> length x" by linarith
  then have big: "\<not> length x \<le> 1" by simp
  have even_len: "length x mod 2 = 0" using Suc.prems by simp
  have "fft_radix2 x = Inr (map fst ps @ map snd ps)"
    by (subst fft_radix2.simps) (simp only: big even_len e o ks ps if_False if_True sum.case refl)
  then show ?case using ps by simp
qed


lemma butterflies_length:
  "butterflies N even' odd' ks = Inr ps \<Longrightarrow> length ps = length ks"
  by (induction ks arbitrary: ps) (auto split: sum.splits)

lemma fft_radix2_length:
  assumes "fft_radix2 x = Inr r"
  shows "length r = length x"
proof (cases "length x \<le> 1")
  case True
  then show ?thesis using assms by (simp add: fft_radix2.simps)
next
  case False
  from assms obtain even' odd' ps where
      ps: "butterflies (length x) even' odd' [0..<(length x + 1) div 2] = Inr ps"
      and ev: "length x mod 2 = 0" and r: "r = map fst ps @ map snd ps"
    using False by (subst (asm) fft_radix2.simps) (auto split: sum.splits if_splits)
  from butterflies_length [OF ps] have "length ps = (length x + 1) div 2" by simp
  then show ?thesis using ev r by (simp; presburger)
qed

lemma butterflies_odd_length:
  assumes "1 < N" and "N mod 2 = 1" and "length odd' = N div 2"
  shows "butterflies N even' odd' [0..<(N + 1) div 2] = Inl TypeError"
proof (rule butterflies_out_of_range [where k = "N div 2"])
  show "N div 2 \<in> set [0..<(N + 1) div 2]" using assms(2) by (simp; presburger)
  show "\<not> N div 2 < length odd'" using assms(3) by simp
qed

lemma fft_radix2_odd_length:
  assumes "1 < length x" and "length x mod 2 = 1"
  shows "\<exists>e. fft_radix2 x = Inl e"
proof (cases "fft_radix2 (evenIndexed x)")
  case (Inl e)
  then show ?thesis using assms(1) by (subst fft_radix2.simps) simp
next
  case even': (Inr even')
  show ?thesis
  proof (cases "fft_radix2 (oddIndexed x)")
    case (Inl e)
    then show ?thesis using assms(1) even' by (subst fft_radix2.simps) simp
  next
    case (Inr odd')
    from fft_radix2_length [OF Inr] have "length odd' = length x div 2"
      by (simp add: length_oddIndexed)
    from butterflies_odd_length [OF assms this]
    have "butterflies (length x) even' odd' [0..<(length x + 1) div 2] = Inl TypeError" .
    then show ?thesis using assms(1) even' Inr
      by (subst fft_radix2.simps) (simp only: if_False sum.case not_le [symmetric], simp)
  qed
qed

lemma frameSpectrum_pow2:
  assumes "fftSize = 2 ^ n"
  shows "\<exists>row. frameSpectrum frame window fftSize = Inr row \<and> length row = fftSize div 2"
proof -
  let ?wf = "map (\<lambda>j. \<lparr> re = js_times (frame ! j) (window ! j), im = Num 0 \<rparr>) [0..<fftSize]"
  have "length ?wf = 2 ^ n" using assms by simp
  from fft_radix2_pow2 [OF this] obtain r where r: "fft_radix2 ?wf = Inr r" "length r = 2 ^ n"
    by auto
  then have "length (take (fftSize div 2) r) = fftSize div 2" using assms by simp
  then show ?thesis unfolding frameSpectrum_def Let_def r by simp
qed

lemma frameLoop_finite:
  assumes pow: "fftSize = 2 ^ n"
      and bound: "\<And>j :: nat. (real j < q) = (j < m)"
      and complete: "\<And>j. j < m \<Longrightarrow> fftSize \<le> length audioBuffer - j * hopLength"
      and i: "i \<le> m"
  shows "\<exists>rows tms.
           frameLoop audioBuffer fftSize hopLength window (Num q) i (sp, tm)
             = Some (Inr (sp @ rows, tm @ tms))
         \<and> length rows = m - i \<and> length tms = m - i
         \<and> (\<forall>row\<in>set rows. length row = fftSize div 2)"
  using i
proof (induction "m - i" arbitrary: i sp tm)
  case 0
  then have "\<not> i < m" by simp
  then have "frameLoop audioBuffer fftSize hopLength window (Num q) i (sp, tm)
      = Some (Inr (sp, tm))"
    by (subst frameLoop.simps) (simp add: bound)
  then show ?case using 0 by simp
next
  case (Suc d)
  then have lt: "i < m" by simp
  let ?frame = "take fftSize (drop (i * hopLength) audioBuffer)"
  have full: "\<not> length ?frame < fftSize" using complete [OF lt] by simp
  obtain row where row: "frameSpectrum ?frame window fftSize = Inr row"
      "length row = fftSize div 2"
    using frameSpectrum_pow2 [OF pow] by blast
  let ?t = "js_divide (Num (real (i * hopLength))) (Num 44100)"
  have step: "frameLoop audioBuffer fftSize hopLength window (Num q) i (sp, tm)
      = frameLoop audioBuffer fftSize hopLength window (Num q) (i + 1) (sp @ [row], tm @ [?t])"
    using lt full
    by (subst frameLoop.simps) (simp add: bound Let_def row del: js_divide.simps)
  have "d = m - (i + 1)" "i + 1 \<le> m" using Suc.hyps(2) lt by simp_all
  from Suc.hyps(1) [OF this] obtain rows tms where
      r: "frameLoop audioBuffer fftSize hopLength window (Num q) (i + 1) (sp @ [row], tm @ [?t])
          = Some (Inr ((sp @ [row]) @ rows, (tm @ [?t]) @ tms))"
      "length rows = m - (i + 1)" "length tms = m - (i + 1)"
      "\<forall>row\<in>set rows. length row = fftSize div 2"
    by blast
  show ?case
  proof (intro exI [of _ "row # rows"] exI [of _ "?t # tms"] conjI)
    show "frameLoop audioBuffer fftSize hopLength window (Num q) i (sp, tm)
        = Some (Inr (sp @ row # rows, tm @ ?t # tms))"
      unfolding step r(1) by simp
    show "length (row # rows) = m - i" using r(2) lt by simp
    show "length (?t # tms) = m - i" using r(3) lt by simp
    show "\<forall>row\<in>set (row # rows). length row = fftSize div 2" using r(4) row(2) by simp
  qed
qed


lemma frameSpectrum_length:
  assumes "frameSpectrum frame window fftSize = Inr row"
  shows "length row = fftSize div 2"
proof -
  let ?wf = "map (\<lambda>j. \<lparr> re = js_times (frame ! j) (window ! j), im = Num 0 \<rparr>) [0..<fftSize]"
  from assms obtain r where r: "fft_radix2 ?wf = Inr r"
      and row: "length row = length (take (fftSize div 2) r)"
    unfolding frameSpectrum_def Let_def by (auto split: sum.splits)
  from fft_radix2_length [OF r] have "length r = fftSize" by simp
  with row show ?thesis by simp
qed

lemma frameLoop_rows:
  assumes ret: "frameLoop audioBuffer fftSize hopLength window numFrames i state = Some (Inr state')"
      and rows: "\<forall>row\<in>set (fst state). length row = fftSize div 2"
  shows "\<forall>row\<in>set (fst state'). length row = fftSize div 2"
proof -
  have "\<forall>st'. (Inr state' :: js_error + jsnum list list \<times> jsnum list) = Inr st'
          \<longrightarrow> (\<forall>row\<in>set (fst state). length row = fftSize div 2)
          \<longrightarrow> (\<forall>row\<in>set (fst st'). length row = fftSize div 2)"
  proof (rule frameLoop.raw_induct [where
        P = "\<lambda>b F h w nf j st y. \<forall>st'. y = Inr st' \<longrightarrow> (\<forall>row\<in>set (fst st). length row = F div 2)
               \<longrightarrow> (\<forall>row\<in>set (fst st'). length row = F div 2)", OF _ ret])
    fix loop b F h w nf j st y
    assume IH: "\<And>b F h w nf j st y. loop b F h w nf j st = Some y \<Longrightarrow>
        \<forall>st'. y = Inr st' \<longrightarrow> (\<forall>row\<in>set (fst st). length row = F div 2)
               \<longrightarrow> (\<forall>row\<in>set (fst st'). length row = F div 2)"
      and eq: "(if js_less (Num (real j)) nf
          then let start = j * h; frame = take F (drop start b)
               in if length frame < F then loop b F h w nf (j + 1) st
                  else case frameSpectrum frame w F of
                         Inl e \<Rightarrow> Some (Inl e)
                       | Inr dbMagnitudes \<Rightarrow>
                           loop b F h w nf (j + 1)
                             (fst st @ [dbMagnitudes],
                              snd st @ [js_divide (Num (real start)) (Num 44100)])
          else Some (Inr st)) = Some y"
    show "\<forall>st'. y = Inr st' \<longrightarrow> (\<forall>row\<in>set (fst st). length row = F div 2)
               \<longrightarrow> (\<forall>row\<in>set (fst st'). length row = F div 2)"
    proof (intro allI impI)
      fix st'
      assume y: "y = Inr st'" and r: "\<forall>row\<in>set (fst st). length row = F div 2"
      let ?frame = "take F (drop (j * h) b)"
      show "\<forall>row\<in>set (fst st'). length row = F div 2"
      proof (cases "js_less (Num (real j)) nf")
        case False
        with eq y r show ?thesis by simp
      next
        case True
        show ?thesis
        proof (cases "length ?frame < F")
          case short: True
          with True eq have "loop b F h w nf (j + 1) st = Some y"
            by (simp only: Let_def if_True)
          from IH [OF this] y r show ?thesis by blast
        next
          case full: False
          show ?thesis
          proof (cases "frameSpectrum ?frame w F")
            case (Inl e)
            with True full eq have "Some (Inl e) = Some y"
              by (simp only: Let_def if_True if_False sum.case)
            with y show ?thesis by simp
          next
            case (Inr db)
            let ?st = "(fst st @ [db], snd st @ [js_divide (Num (real (j * h))) (Num 44100)])"
            from True full Inr eq
            have "loop b F h w nf (j + 1) ?st = Some y"
              by (simp only: Let_def if_True if_False sum.case)
            moreover have "\<forall>row\<in>set (fst ?st). length row = F div 2"
              using r frameSpectrum_length [OF Inr] by simp
            ultimately show ?thesis using IH y by blast
          qed
        qed
      qed
    qed
  qed
  with rows show ?thesis by blast
qed

lemma pow2_quarter:
  assumes "2 \<le> k"
  shows "(2 :: nat) ^ k = 4 * 2 ^ (k - 2)"
proof -
  from assms obtain j where "k = 2 + j" using le_iff_add by blast
  then show ?thesis by (simp add: power_add)
qed

lemma spectrogramFrames_pow2:
  assumes pow: "fftSize = 2 ^ k" and k: "2 \<le> k"
  shows "\<exists>spectrogram times'.
           spectrogramFrames audioBuffer fftSize = Some (Inr (spectrogram, times'))
         \<and> length spectrogram =
             (if fftSize \<le> length audioBuffer
              then (length audioBuffer - fftSize) div (fftSize div 4) + 1 else 0)
         \<and> length times' = length spectrogram
         \<and> (\<forall>row\<in>set spectrogram. length row = fftSize div 2)"
proof -
  let ?L = "length audioBuffer"
  define hop where "hop = fftSize div 4"
  define m where "m = (if fftSize \<le> ?L then (?L - fftSize) div hop + 1 else 0)"
  define q where "q = real_of_int \<lfloor>(real ?L - real fftSize) / real hop\<rfloor> + 1"
  have "fftSize = 4 * 2 ^ (k - 2)"
    unfolding pow by (rule pow2_quarter [OF k])
  then have hop_pos: "0 < hop" by (simp add: hop_def)
  have nf: "js_plus (js_floor (js_divide (Num (real ?L - real fftSize)) (Num (real hop)))) (Num 1)
      = Num q"
    using hop_pos by (simp add: q_def)
  have bound: "(real j < q) = (j < m)" for j :: nat
  proof (cases "fftSize \<le> ?L")
    case True
    then have e: "real ?L - real fftSize = real (?L - fftSize)"
      by (simp add: of_nat_diff)
    have "\<lfloor>(real ?L - real fftSize) / real hop\<rfloor> = int ((?L - fftSize) div hop)"
      unfolding e by (rule floor_divide_of_nat_eq)
    then have "q = real m" using True by (simp add: q_def m_def)
    then show ?thesis by simp
  next
    case False
    then have "real ?L - real fftSize < 0" by simp
    then have "(real ?L - real fftSize) / real hop < 0"
      using hop_pos by (simp add: divide_neg_pos)
    then have "\<lfloor>(real ?L - real fftSize) / real hop\<rfloor> < 0" by linarith
    then have "q \<le> 0" unfolding q_def by linarith
    moreover have "m = 0" using False by (simp add: m_def)
    ultimately show ?thesis by (simp add: not_less)
  qed
  have complete: "fftSize \<le> ?L - j * hop" if "j < m" for j
  proof -
    from that have le: "fftSize \<le> ?L" and "j \<le> (?L - fftSize) div hop"
      by (simp_all add: m_def split: if_splits)
    then have "j * hop \<le> (?L - fftSize) div hop * hop" by simp
    also have "\<dots> \<le> ?L - fftSize" by simp
    finally show ?thesis using le by simp
  qed
  from frameLoop_finite [of fftSize k q m audioBuffer hop 0 "hannWindow fftSize" "[]" "[]",
      OF pow bound complete]
  obtain rows tms where
      "frameLoop audioBuffer fftSize hop (hannWindow fftSize) (Num q) 0 ([], [])
         = Some (Inr (rows, tms))"
      "length rows = m" "length tms = m" "\<forall>row\<in>set rows. length row = fftSize div 2"
    by auto
  then show ?thesis
    unfolding spectrogramFrames_def Let_def hop_def [symmetric] nf m_def by auto
qed


lemma transposed_shape:
  assumes "spectrogram \<noteq> []" and "\<forall>row\<in>set spectrogram. length row = n"
  shows "length (transposed spectrogram) = n"
    and "c < n \<Longrightarrow> transposed spectrogram ! c = map (\<lambda>row. row ! c) spectrogram"
proof -
  from assms obtain row0 rest where sp: "spectrogram = row0 # rest" and "length row0 = n"
    by (cases spectrogram) auto
  then have t: "transposed spectrogram
      = map (\<lambda>colIndex. map (\<lambda>row. row ! colIndex) spectrogram) [0..<n]"
    by (simp add: transposed_def)
  show "length (transposed spectrogram) = n" by (simp add: t)
  show "c < n \<Longrightarrow> transposed spectrogram ! c = map (\<lambda>row. row ! c) spectrogram"
    by (simp add: t)
qed

lemma reversed_transposed_row:
  assumes "spectrogram \<noteq> []" and "\<forall>row\<in>set spectrogram. length row = n" and "r < n"
  shows "rev (transposed spectrogram) ! r = map (\<lambda>row. row ! (n - 1 - r)) spectrogram"
proof -
  note sh = transposed_shape [OF assms(1,2)]
  have "rev (transposed spectrogram) ! r = transposed spectrogram ! (n - Suc r)"
    using assms(3) by (simp add: rev_nth sh(1))
  also have "\<dots> = map (\<lambda>row. row ! (n - Suc r)) spectrogram"
    using assms(3) by (intro sh(2)) simp
  finally show ?thesis by simp
qed

lemma computeSpectrogramData_frames:
  assumes "spectrogramFrames audioBuffer fftSize = Some (Inr (spectrogram, times'))"
  shows "computeSpectrogramData audioBuffer fftSize
     = Some (Inr (rev (transposed spectrogram),
                  map (\<lambda>i. js_divide (Num (real i * 44100)) (Num (real fftSize))) [0..<fftSize div 2],
                  times'))"
  using assms by (simp add: computeSpectrogramData_def Let_def del: js_divide.simps)

lemma computeSpectrogramData_returns:
  assumes "computeSpectrogramData audioBuffer fftSize = Some (Inr (data, binFreqs, times'))"
  shows "\<exists>spectrogram. spectrogramFrames audioBuffer fftSize = Some (Inr (spectrogram, times'))
           \<and> data = rev (transposed spectrogram)"
  using assms
  by (auto simp add: computeSpectrogramData_def Let_def simp del: js_divide.simps
      split: option.splits sum.splits)

lemma spectrogramFrames_rows:
  assumes "spectrogramFrames audioBuffer fftSize = Some (Inr (spectrogram, times'))"
  shows "\<forall>row\<in>set spectrogram. length row = fftSize div 2"
  using frameLoop_rows [of audioBuffer fftSize _ _ _ 0 "([], [])" "(spectrogram, times')"] assms
  unfolding spectrogramFrames_def Let_def by simp

lemma frameLoop_diverges:
  "frameLoop [Num 0, Num 0, Num 0] 2 0 window PInf i state = None"
proof (rule ccontr)
  assume "frameLoop [Num 0, Num 0, Num 0] 2 0 window PInf i state \<noteq> None"
  then obtain y where ret: "frameLoop [Num 0, Num 0, Num 0] 2 0 window PInf i state = Some y"
    by auto
  have "\<not> ([Num 0, Num 0, Num 0] = [Num 0, Num 0, Num 0] \<and> (2 :: nat) = 2 \<and> (0 :: nat) = 0
          \<and> PInf = PInf)"
  proof (rule frameLoop.raw_induct [where
        P = "\<lambda>b F h w nf j st y. \<not> (b = [Num 0, Num 0, Num 0] \<and> F = 2 \<and> h = 0 \<and> nf = PInf)",
        OF _ ret])
    fix loop b F h w nf j st and y :: "js_error + jsnum list list \<times> jsnum list"
    assume IH: "\<And>b F h w nf j st y. loop b F h w nf j st = Some y \<Longrightarrow>
        \<not> (b = [Num 0, Num 0, Num 0] \<and> F = 2 \<and> h = 0 \<and> nf = PInf)"
      and eq: "(if js_less (Num (real j)) nf
          then let start = j * h; frame = take F (drop start b)
               in if length frame < F then loop b F h w nf (j + 1) st
                  else case frameSpectrum frame w F of
                         Inl e \<Rightarrow> Some (Inl e)
                       | Inr dbMagnitudes \<Rightarrow>
                           loop b F h w nf (j + 1)
                             (fst st @ [dbMagnitudes],
                              snd st @ [js_divide (Num (real start)) (Num 44100)])
          else Some (Inr st)) = Some y"
    show "\<not> (b = [Num 0, Num 0, Num 0] \<and> F = 2 \<and> h = 0 \<and> nf = PInf)"
    proof
      assume a: "b = [Num 0, Num 0, Num 0] \<and> F = 2 \<and> h = 0 \<and> nf = PInf"
      obtain row where row: "frameSpectrum [Num 0, Num 0] w 2 = Inr row"
        using frameSpectrum_pow2 [of 2 1 "[Num 0, Num 0]" w] by auto
      from eq a row have "loop b F h w nf (j + 1)
          (fst st @ [row], snd st @ [js_divide (Num (real (j * h))) (Num 44100)]) = Some y"
        by (simp add: Let_def del: js_divide.simps)
      from IH [OF this] a show False by simp
    qed
  qed
  then show False by simp
qed

text \<open>
  Claim C5, as amended. For a power-of-two fftSize \<open>F \<ge> 4\<close> and a signal of length \<open>L\<close>
  the analyzer returns; the frame-major matrix has floor ((L - F) / (F / 4)) + 1 frames when
  \<open>L \<ge> F\<close> and none (and the returned matrix is empty) when \<open>L < F\<close>; every frame holds
  \<open>F / 2\<close> bins, and there is one time label per frame.
\<close>

theorem spectrogram_shape:
  assumes "fftSize = 2 ^ k" and "2 \<le> k"
  shows "\<exists>spectrogram binFreqs times'.
           spectrogramFrames audioBuffer fftSize = Some (Inr (spectrogram, times'))
         \<and> computeSpectrogramData audioBuffer fftSize
             = Some (Inr (rev (transposed spectrogram), binFreqs, times'))
         \<and> (fftSize \<le> length audioBuffer \<longrightarrow>
              int (length spectrogram)
                = \<lfloor>(real (length audioBuffer) - real fftSize) / (real fftSize / 4)\<rfloor> + 1)
         \<and> (length audioBuffer < fftSize \<longrightarrow>
              spectrogram = [] \<and> rev (transposed spectrogram) = [])
         \<and> (\<forall>frame\<in>set spectrogram. length frame = fftSize div 2)
         \<and> length times' = length spectrogram"
proof -
  from spectrogramFrames_pow2 [OF assms, of audioBuffer] obtain spectrogram times' where
      fr: "spectrogramFrames audioBuffer fftSize = Some (Inr (spectrogram, times'))"
      and len: "length spectrogram =
             (if fftSize \<le> length audioBuffer
              then (length audioBuffer - fftSize) div (fftSize div 4) + 1 else 0)"
      and tm: "length times' = length spectrogram"
      and rows: "\<forall>row\<in>set spectrogram. length row = fftSize div 2"
    by blast
  have "fftSize = 4 * 2 ^ (k - 2)"
    unfolding assms(1) by (rule pow2_quarter [OF assms(2)])
  then have quarter: "real fftSize / 4 = real (fftSize div 4)" by simp
  have long: "int (length spectrogram)
      = \<lfloor>(real (length audioBuffer) - real fftSize) / (real fftSize / 4)\<rfloor> + 1"
    if "fftSize \<le> length audioBuffer"
  proof -
    have e: "real (length audioBuffer) - real fftSize = real (length audioBuffer - fftSize)"
      using that by (simp add: of_nat_diff)
    have "\<lfloor>(real (length audioBuffer) - real fftSize) / (real fftSize / 4)\<rfloor>
        = int ((length audioBuffer - fftSize) div (fftSize div 4))"
      unfolding e quarter by (rule floor_divide_of_nat_eq)
    then show ?thesis using that len by simp
  qed
  have short: "spectrogram = [] \<and> rev (transposed spectrogram) = []"
    if "length audioBuffer < fftSize"
    using that len by (simp add: transposed_def)
  show ?thesis
  proof (intro exI conjI)
    show "spectrogramFrames audioBuffer fftSize = Some (Inr (spectrogram, times'))" by (rule fr)
    show "computeSpectrogramData audioBuffer fftSize
        = Some (Inr (rev (transposed spectrogram),
             map (\<lambda>i. js_divide (Num (real i * 44100)) (Num (real fftSize))) [0..<fftSize div 2],
             times'))"
      by (rule computeSpectrogramData_frames [OF fr])
    show "fftSize \<le> length audioBuffer \<longrightarrow>
        int (length spectrogram)
          = \<lfloor>(real (length audioBuffer) - real fftSize) / (real fftSize / 4)\<rfloor> + 1"
      using long by blast
    show "length audioBuffer < fftSize \<longrightarrow>
        spectrogram = [] \<and> rev (transposed spectrogram) = []"
      using short by blast
    show "\<forall>frame\<in>set spectrogram. length frame = fftSize div 2" by (rule rows)
    show "length times' = length spectrogram" by (rule tm)
  qed
qed

theorem spectrogram_shape_witness:
  "\<exists>spectrogram binFreqs times'.
      spectrogramFrames (replicate 6 (Num 0)) 4 = Some (Inr (spectrogram, times'))
    \<and> computeSpectrogramData (replicate 6 (Num 0)) 4
        = Some (Inr (rev (transposed spectrogram), binFreqs, times'))
    \<and> length spectrogram = 3
    \<and> (\<forall>frame\<in>set spectrogram. length frame = 2)"
proof -
  define b where "b = replicate 6 (Num 0)"
  have lb: "length b = 6" by (simp add: b_def)
  have "(4 :: nat) = 2 ^ 2" "(2 :: nat) \<le> 2" by simp_all
  from spectrogram_shape [OF this, of b] obtain spectrogram binFreqs times' where
      fr: "spectrogramFrames b 4 = Some (Inr (spectrogram, times'))"
      and c: "computeSpectrogramData b 4
          = Some (Inr (rev (transposed spectrogram), binFreqs, times'))"
      and n: "4 \<le> length b \<longrightarrow>
          int (length spectrogram) = \<lfloor>(real (length b) - real 4) / (real 4 / 4)\<rfloor> + 1"
      and rows: "\<forall>frame\<in>set spectrogram. length frame = 4 div 2"
    by blast
  from n have "int (length spectrogram) = 3" unfolding lb by simp
  then have "length spectrogram = 3" by simp
  moreover from rows have "\<forall>frame\<in>set spectrogram. length frame = 2" by simp
  ultimately show ?thesis using fr c unfolding b_def by blast
qed

text \<open>
  Claim C5 as stated fails for the power of two \<open>F = 2\<close>: the hop length is
  \<open>floor (2 / 4) = 0\<close>. For \<open>L = 2\<close> the frame count is \<open>0 / 0 + 1\<close>, NaN, and there
  is no frame, not one; for \<open>L = 3\<close> the frame count is infinite and the loop never ends.
\<close>

theorem spectrogram_fftSize_2:
  "spectrogramFrames [Num 0, Num 0] 2 = Some (Inr ([], []))
   \<and> computeSpectrogramData [Num 0, Num 0] 2 = Some (Inr ([], [Num 0], []))
   \<and> computeSpectrogramData [Num 0, Num 0, Num 0] 2 = None"
proof -
  have a: "spectrogramFrames [Num 0, Num 0] 2 = Some (Inr ([], []))"
    unfolding spectrogramFrames_def Let_def by (subst frameLoop.simps) simp
  have b: "computeSpectrogramData [Num 0, Num 0] 2 = Some (Inr ([], [Num 0], []))"
    unfolding computeSpectrogramData_frames [OF a] by (simp add: transposed_def)
  have "spectrogramFrames [Num 0, Num 0, Num 0] 2 = None"
    unfolding spectrogramFrames_def Let_def by (simp add: frameLoop_diverges)
  then have c: "computeSpectrogramData [Num 0, Num 0, Num 0] 2 = None"
    by (simp add: computeSpectrogramData_def)
  from a b c show ?thesis by simp
qed

text \<open>
  Claim C6. Whenever the analyzer returns, the returned matrix is the frame-major matrix
  transposed and then reversed: when there is a frame it has \<open>F / 2\<close> rows, row \<open>r\<close>
  holds bin \<open>F / 2 - 1 - r\<close> of every frame, so the first row is the highest bin and the
  last row is bin 0.
\<close>

theorem spectrogram_orientation:
  assumes "computeSpectrogramData audioBuffer fftSize = Some (Inr (data, binFreqs, times'))"
  shows "\<exists>spectrogram.
           spectrogramFrames audioBuffer fftSize = Some (Inr (spectrogram, times'))
         \<and> data = rev (transposed spectrogram)
         \<and> (\<forall>frame\<in>set spectrogram. length frame = fftSize div 2)
         \<and> (spectrogram \<noteq> [] \<longrightarrow>
              length data = fftSize div 2
            \<and> (\<forall>r<fftSize div 2.
                  data ! r = map (\<lambda>frame. frame ! (fftSize div 2 - 1 - r)) spectrogram)
            \<and> (0 < fftSize div 2 \<longrightarrow>
                  hd data = map (\<lambda>frame. frame ! (fftSize div 2 - 1)) spectrogram
                \<and> last data = map (\<lambda>frame. frame ! 0) spectrogram))"
proof -
  from computeSpectrogramData_returns [OF assms] obtain spectrogram where
      fr: "spectrogramFrames audioBuffer fftSize = Some (Inr (spectrogram, times'))"
      and data: "data = rev (transposed spectrogram)"
    by blast
  define n where "n = fftSize div 2"
  have rows: "\<forall>frame\<in>set spectrogram. length frame = n"
    unfolding n_def by (rule spectrogramFrames_rows [OF fr])
  have ne: "length data = n
      \<and> (\<forall>r<n. data ! r = map (\<lambda>frame. frame ! (n - 1 - r)) spectrogram)
      \<and> (0 < n \<longrightarrow> hd data = map (\<lambda>frame. frame ! (n - 1)) spectrogram
                  \<and> last data = map (\<lambda>frame. frame ! 0) spectrogram)"
    if sp: "spectrogram \<noteq> []"
  proof (intro conjI allI impI)
    show l: "length data = n" using transposed_shape(1) [OF sp rows] by (simp add: data)
    show nth: "data ! r = map (\<lambda>frame. frame ! (n - 1 - r)) spectrogram" if "r < n" for r
      unfolding data using sp rows that by (rule reversed_transposed_row)
    assume pos: "0 < n"
    with l have d: "data \<noteq> []" by auto
    have "hd data = data ! 0" using d by (rule hd_conv_nth)
    also have "\<dots> = map (\<lambda>frame. frame ! (n - 1 - 0)) spectrogram" using pos by (rule nth)
    finally show "hd data = map (\<lambda>frame. frame ! (n - 1)) spectrogram" by simp
    have "last data = data ! (n - 1)" using d l by (simp add: last_conv_nth)
    also have "\<dots> = map (\<lambda>frame. frame ! (n - 1 - (n - 1))) spectrogram"
      using pos by (intro nth) simp
    finally show "last data = map (\<lambda>frame. frame ! 0) spectrogram" by simp
  qed
  show ?thesis
  proof (intro exI conjI impI)
    show "spectrogramFrames audioBuffer fftSize = Some (Inr (spectrogram, times'))" by (rule fr)
    show "data = rev (transposed spectrogram)" by (rule data)
    show "\<forall>frame\<in>set spectrogram. length frame = fftSize div 2"
      using rows unfolding n_def .
    assume sp: "spectrogram \<noteq> []"
    show "length data = fftSize div 2" using ne [OF sp] unfolding n_def by (rule conjunct1)
    show "\<forall>r<fftSize div 2.
        data ! r = map (\<lambda>frame. frame ! (fftSize div 2 - 1 - r)) spectrogram"
      using ne [OF sp] unfolding n_def by (elim conjE)
    assume "0 < fftSize div 2"
    with ne [OF sp] show "hd data = map (\<lambda>frame. frame ! (fftSize div 2 - 1)) spectrogram"
      unfolding n_def by (elim conjE) (erule (1) impE, erule conjunct1)
    from \<open>0 < fftSize div 2\<close> ne [OF sp]
    show "last data = map (\<lambda>frame. frame ! 0) spectrogram"
      unfolding n_def by (elim conjE) (erule (1) impE, erule conjunct2)
  qed
qed

theorem spectrogram_orientation_witness:
  "\<exists>data binFreqs times' spectrogram.
      computeSpectrogramData [Num 0, Num 1, Num 0, Num (- 1)] 4
        = Some (Inr (data, binFreqs, times'))
    \<and> spectrogramFrames [Num 0, Num 1, Num 0, Num (- 1)] 4 = Some (Inr (spectrogram, times'))
    \<and> length spectrogram = 1
    \<and> length data = 2
    \<and> data ! 0 = map (\<lambda>frame. frame ! 1) spectrogram
    \<and> data ! 1 = map (\<lambda>frame. frame ! 0) spectrogram"
proof -
  let ?b = "[Num 0, Num 1, Num 0, Num (- 1)]"
  have "(4 :: nat) = 2 ^ 2" "(2 :: nat) \<le> 2" by simp_all
  from spectrogramFrames_pow2 [OF this, of ?b] obtain sp tm where
      fr: "spectrogramFrames ?b 4 = Some (Inr (sp, tm))" and len: "length sp = 1"
    by auto
  note c = computeSpectrogramData_frames [OF fr]
  from spectrogram_orientation [OF c] fr len
  have "length (rev (transposed sp)) = 2
      \<and> (\<forall>r<2. rev (transposed sp) ! r = map (\<lambda>frame. frame ! (2 - 1 - r)) sp)"
    by auto
  then have "length (rev (transposed sp)) = 2"
    "rev (transposed sp) ! 0 = map (\<lambda>frame. frame ! 1) sp"
    "rev (transposed sp) ! 1 = map (\<lambda>frame. frame ! 0) sp"
    by simp_all
  with c fr len show ?thesis by blast
qed

end
